theory Spec2Isabelle
  imports Main "HOL-Library.AList"
begin

section \<open>JavaScript values\<close>

text \<open>
  The chat front end is dynamically typed at its edges: tool-call arguments, the decoded
  phase marker and the completion-API response are arbitrary JSON. \<open>jsval\<close> is the
  value universe; \<open>JUndefined\<close> is a missing property. Numbers are integers (the phase
  number of the data model is an integer). An object is its list of own properties.
\<close>

datatype jsval =
    JUndefined
  | JNull
  | JBool bool
  | JNum int
  | JStr string
  | JArr "jsval list"
  | JObj "(string \<times> jsval) list"

text \<open>ToBoolean, as \<open>&&\<close>, \<open>||\<close>, \<open>!\<close> and \<open>?:\<close> apply it.\<close>

fun truthy :: "jsval \<Rightarrow> bool" where
  "truthy JUndefined = False"
| "truthy JNull = False"
| "truthy (JBool b) = b"
| "truthy (JNum n) = (n \<noteq> 0)"
| "truthy (JStr s) = (s \<noteq> [])"
| "truthy (JArr xs) = True"
| "truthy (JObj kvs) = True"

text \<open>\<open>a || b\<close>.\<close>

definition js_or :: "jsval \<Rightarrow> jsval \<Rightarrow> jsval" where
  "js_or a b = (if truthy a then a else b)"

text \<open>
  \<open>v.k\<close> on a value that is neither \<open>null\<close> nor \<open>undefined\<close>, for the keys the
  program reads (none of them is a built-in property of a string, number or array).
\<close>

fun js_prop :: "jsval \<Rightarrow> string \<Rightarrow> jsval" where
  "js_prop (JObj kvs) k = (case map_of kvs k of Some v \<Rightarrow> v | None \<Rightarrow> JUndefined)"
| "js_prop v k = JUndefined"

text \<open>
  \<open>a === b\<close>. Primitives compare by value. Arrays and objects compare by reference, and
  every comparison the program makes is between values decoded from two different
  messages (or decoded twice), so two such operands are never the same reference.
\<close>

fun strict_eq :: "jsval \<Rightarrow> jsval \<Rightarrow> bool" where
  "strict_eq (JArr xs) b = False"
| "strict_eq (JObj kvs) b = False"
| "strict_eq a b = (a = b)"

text \<open>
  \<open>JSON.parse\<close> is a primitive of the platform, not code of the repository: the
  functions below take it as a parameter; \<open>None\<close> is a thrown \<open>SyntaxError\<close>.
\<close>

type_synonym json_parser = "string \<Rightarrow> jsval option"

section \<open>Messages\<close>

datatype message_type = Human | Ai | Tool | System

text \<open>
  \<open>{ name?: string; arguments?: unknown }\<close>, the \<open>function\<close> part of a structured
  tool call.
\<close>

record fn_part =
  fn_name :: "string option"
  fn_arguments :: jsval

text \<open>
  An element of a tool-call array or of a content array, with the fields the program
  reads: \<open>{ id?, function?, name?, type?, args?, input? }\<close> (ChatInterface, second
  pass) and \<open>text\<close> of a text block.
\<close>

record item =
  item_id :: "string option"
  item_function :: "fn_part option"
  item_name :: "string option"
  item_type :: "string option"
  item_args :: jsval
  item_input :: jsval
  item_text :: "string option"

datatype content = CString string | CBlocks "item list" | CMalformed

text \<open>
  A message of the stream. \<open>msg_additional_tool_calls\<close> is
  \<open>additional_kwargs?.tool_calls\<close> and \<open>msg_tool_calls\<close> is \<open>tool_calls\<close>, each
  \<open>Some\<close> exactly when the property is an array (the program tests
  \<open>x && Array.isArray(x)\<close>, and an empty array is truthy).
\<close>

record message =
  msg_id :: "string option"
  msg_type :: message_type
  msg_content :: content
  msg_additional_tool_calls :: "item list option"
  msg_tool_calls :: "item list option"
  msg_tool_call_id :: "string option"

section \<open>Content Normalizer\<close>

definition block_text :: "item \<Rightarrow> string" where
  "block_text b =
     (if item_type b = Some ''text'' then (case item_text b of Some t \<Rightarrow> t | None \<Rightarrow> '''')
      else '''')"

text \<open>
  Modelled from the spec: \<open>extractStringFromMessageContent\<close> lives in
  \<open>app/utils/utils\<close>, which is not among the source files. Spec 4.1: a string is
  returned unchanged; a sequence of blocks gives the concatenation of the text of its
  \<open>text\<close>-typed blocks, in order; any other shape gives the empty string.
\<close>

definition extractStringFromMessageContent :: "message \<Rightarrow> string" where
  "extractStringFromMessageContent m =
     (case msg_content m of
        CString s \<Rightarrow> s
      | CBlocks bs \<Rightarrow> concat (map block_text bs)
      | CMalformed \<Rightarrow> '''')"

section \<open>The phase marker\<close>

definition starts_with :: "string \<Rightarrow> string \<Rightarrow> bool" where
  "starts_with p s = (take (length p) s = p)"

text \<open>\<open>s.includes(n)\<close>.\<close>

fun includes_str :: "string \<Rightarrow> string \<Rightarrow> bool" where
  "includes_str n [] = (n = [])"
| "includes_str n (c # cs) = (starts_with n (c # cs) \<or> includes_str n cs)"

text \<open>
  The regular expression \<open>/__PHASE_STATUS__(.+?)__/\<close>. \<open>.\<close> matches any character
  but a line terminator; the group is lazy, so it ends before the first \<open>__\<close> that
  follows at least one character. When no such end exists after one occurrence of the
  prefix, the engine tries the next occurrence.
\<close>

definition is_line_terminator :: "char \<Rightarrow> bool" where
  "is_line_terminator c = (c = CHR 0x0A \<or> c = CHR 0x0D)"

fun lazy_group :: "string \<Rightarrow> string \<Rightarrow> string option" where
  "lazy_group acc [] = None"
| "lazy_group acc (c # cs) =
     (if is_line_terminator c then None
      else if starts_with ''__'' cs then Some (acc @ [c])
      else lazy_group (acc @ [c]) cs)"

fun match_PHASE_STATUS :: "string \<Rightarrow> string option" where
  "match_PHASE_STATUS [] = None"
| "match_PHASE_STATUS (c # cs) =
     (if starts_with ''__PHASE_STATUS__'' (c # cs) then
        (case lazy_group [] (drop 16 (c # cs)) of
           Some g \<Rightarrow> Some g
         | None \<Rightarrow> match_PHASE_STATUS cs)
      else match_PHASE_STATUS cs)"

section \<open>Phase Lifecycle Tracker (ChatInterface, first pass)\<close>

text \<open>The value stored per index: \<open>{ phase: data.phase, status: data.status }\<close>.\<close>

record phase_rec =
  pr_phase :: jsval
  pr_status :: jsval

text \<open>
  The body of the first \<open>messages.forEach\<close>: only an \<open>ai\<close> message whose text
  includes the marker, matches the expression and decodes is recorded. Reading
  \<open>data.phase\<close> of \<open>null\<close> throws inside the \<open>try\<close>, so it records nothing either.
\<close>

definition phase_record_of :: "json_parser \<Rightarrow> message \<Rightarrow> phase_rec option" where
  "phase_record_of jp m =
     (if msg_type m = Ai then
        (let content = extractStringFromMessageContent m in
         if includes_str ''__PHASE_STATUS__'' content then
           (case match_PHASE_STATUS content of
              None \<Rightarrow> None
            | Some g \<Rightarrow>
                (case jp g of
                   None \<Rightarrow> None
                 | Some d \<Rightarrow>
                     if d = JNull \<or> d = JUndefined then None
                     else Some \<lparr>pr_phase = js_prop d ''phase'', pr_status = js_prop d ''status''\<rparr>))
         else None)
      else None)"

fun phaseStatusIndices_from :: "json_parser \<Rightarrow> nat \<Rightarrow> message list \<Rightarrow> (nat \<times> phase_rec) list" where
  "phaseStatusIndices_from jp i [] = []"
| "phaseStatusIndices_from jp i (m # ms) =
     (case phase_record_of jp m of
        None \<Rightarrow> phaseStatusIndices_from jp (Suc i) ms
      | Some d \<Rightarrow> (i, d) # phaseStatusIndices_from jp (Suc i) ms)"

definition phaseStatusIndices :: "json_parser \<Rightarrow> message list \<Rightarrow> (nat \<times> phase_rec) list" where
  "phaseStatusIndices jp msgs = phaseStatusIndices_from jp 0 msgs"

text \<open>
  \<open>Set.add\<close> on phase values: a primitive already in the set is not added again; an
  array or object is a new reference each time.
\<close>

definition phase_set_add :: "jsval \<Rightarrow> jsval list \<Rightarrow> jsval list" where
  "phase_set_add p ps = (if list_ex (\<lambda>q. strict_eq q p) ps then ps else ps @ [p])"

definition completedPhases :: "json_parser \<Rightarrow> message list \<Rightarrow> jsval list" where
  "completedPhases jp msgs =
     fold (\<lambda>(i, d) acc. if pr_status d = JStr ''completed'' then phase_set_add (pr_phase d) acc else acc)
       (phaseStatusIndices jp msgs) []"

definition phaseStatusArray :: "json_parser \<Rightarrow> message list \<Rightarrow> (nat \<times> phase_rec) list" where
  "phaseStatusArray jp msgs = sort_key fst (phaseStatusIndices jp msgs)"

text \<open>
  The inner \<open>phaseStatusArray.forEach\<close>: \<open>startedIndex\<close> and \<open>completedIndex\<close> start
  at \<open>-1\<close> (\<open>None\<close>) and are overwritten by every record of the phase.
\<close>

definition find_step :: "jsval \<Rightarrow> nat \<times> phase_rec \<Rightarrow> nat option \<times> nat option \<Rightarrow> nat option \<times> nat option" where
  "find_step phase e sc =
     (if strict_eq (pr_phase (snd e)) phase then
        (if pr_status (snd e) = JStr ''started'' then (Some (fst e), snd sc)
         else if pr_status (snd e) = JStr ''completed'' then (fst sc, Some (fst e))
         else sc)
      else sc)"

definition findPhaseIndices :: "(nat \<times> phase_rec) list \<Rightarrow> jsval \<Rightarrow> nat option \<times> nat option" where
  "findPhaseIndices arr phase = fold (find_step phase) arr (None, None)"

definition hasToolCalls :: "message \<Rightarrow> bool" where
  "hasToolCalls m =
     ((case msg_additional_tool_calls m of Some xs \<Rightarrow> xs \<noteq> [] | None \<Rightarrow> False)
      \<or> (case msg_tool_calls m of Some xs \<Rightarrow> xs \<noteq> [] | None \<Rightarrow> False)
      \<or> (case msg_content m of
            CBlocks bs \<Rightarrow> list_ex (\<lambda>b. item_type b = Some ''tool_use'') bs
          | CString s \<Rightarrow> False
          | CMalformed \<Rightarrow> False))"

text \<open>The \<open>for (j = startedIndex + 1; j < completedIndex; j++)\<close> loop.\<close>

definition hide_step :: "message list \<Rightarrow> nat \<Rightarrow> nat list \<Rightarrow> nat list" where
  "hide_step msgs j skip =
     (if msg_type (msgs ! j) = Ai \<and> \<not> hasToolCalls (msgs ! j) then List.insert j skip else skip)"

definition hideBetween :: "message list \<Rightarrow> nat \<Rightarrow> nat \<Rightarrow> nat list \<Rightarrow> nat list" where
  "hideBetween msgs s c skip = fold (hide_step msgs) [Suc s..<c] skip"

text \<open>One iteration of \<open>completedPhases.forEach\<close>.\<close>

definition phase_skip :: "message list \<Rightarrow> (nat \<times> phase_rec) list \<Rightarrow> jsval \<Rightarrow> nat list \<Rightarrow> nat list" where
  "phase_skip msgs arr phase skip =
     (case findPhaseIndices arr phase of
        (Some s, Some c) \<Rightarrow> hideBetween msgs s c (List.insert s skip)
      | (Some s, None) \<Rightarrow> skip
      | (None, c) \<Rightarrow> skip)"

definition skipIndices :: "json_parser \<Rightarrow> message list \<Rightarrow> nat list" where
  "skipIndices jp msgs = fold (phase_skip msgs (phaseStatusArray jp msgs)) (completedPhases jp msgs) []"

text \<open>
  A phase record at an index, as the tracker's comparisons read it: message \<open>i\<close> is
  recorded with a phase that is \<open>===\<close> to \<open>p\<close> and with status \<open>st\<close>.
\<close>

definition phase_record_at :: "json_parser \<Rightarrow> message list \<Rightarrow> nat \<Rightarrow> jsval \<Rightarrow> string \<Rightarrow> bool" where
  "phase_record_at jp msgs i p st =
     (i < length msgs \<and>
      (case phase_record_of jp (msgs ! i) of
         None \<Rightarrow> False
       | Some d \<Rightarrow> strict_eq (pr_phase d) p \<and> pr_status d = JStr st))"

section \<open>Tool-Call Correlator (ChatInterface, second pass)\<close>

datatype tool_status = Pending | Completed | Failed | Interrupted

record tool_call =
  tc_id :: string
  tc_name :: string
  tc_args :: jsval
  tc_result :: "string option"
  tc_status :: tool_status

text \<open>The value of the message map: \<open>{ message, toolCalls }\<close>.\<close>

record entry =
  e_message :: message
  e_toolCalls :: "tool_call list"

text \<open>
  The \<open>if / else if / else if\<close> chain that fills \<open>toolCallsInMessage\<close>: the first
  property that is an array decides, whether or not it holds anything.
\<close>

definition toolCallsInMessage :: "message \<Rightarrow> item list" where
  "toolCallsInMessage m =
     (case msg_additional_tool_calls m of
        Some xs \<Rightarrow> xs
      | None \<Rightarrow>
          (case msg_tool_calls m of
             Some ys \<Rightarrow> filter (\<lambda>t. item_name t \<noteq> Some []) ys
           | None \<Rightarrow>
               (case msg_content m of
                  CBlocks bs \<Rightarrow> filter (\<lambda>b. item_type b = Some ''tool_use'') bs
                | CString s \<Rightarrow> []
                | CMalformed \<Rightarrow> [])))"

text \<open>\<open>a || b\<close> on optional strings: a missing or empty string is falsy.\<close>

definition str_or :: "string option \<Rightarrow> string option \<Rightarrow> string option" where
  "str_or a b = (case a of Some s \<Rightarrow> if s \<noteq> [] then Some s else b | None \<Rightarrow> b)"

definition str_or_default :: "string option \<Rightarrow> string \<Rightarrow> string" where
  "str_or_default a d = (case a of Some s \<Rightarrow> if s \<noteq> [] then s else d | None \<Rightarrow> d)"

definition function_name :: "item \<Rightarrow> string option" where
  "function_name t = (case item_function t of Some f \<Rightarrow> fn_name f | None \<Rightarrow> None)"

definition function_arguments :: "item \<Rightarrow> jsval" where
  "function_arguments t = (case item_function t of Some f \<Rightarrow> fn_arguments f | None \<Rightarrow> JUndefined)"

text \<open>\<open>toolCall.function?.name || toolCall.name || toolCall.type || "unknown"\<close>.\<close>

definition toolCallName :: "item \<Rightarrow> string" where
  "toolCallName t = str_or_default (str_or (str_or (function_name t) (item_name t)) (item_type t)) ''unknown''"

text \<open>\<open>toolCall.function?.arguments || toolCall.args || toolCall.input || {}\<close>.\<close>

definition toolCallArgs :: "item \<Rightarrow> jsval" where
  "toolCallArgs t = js_or (js_or (js_or (function_arguments t) (item_args t)) (item_input t)) (JObj [])"

text \<open>
  \<open>toolCall.id || `tool-${Math.random()}`\<close>. The random source is a parameter:
  \<open>rnd i k\<close> is the text of the number drawn for the \<open>k\<close>-th tool call of message
  \<open>i\<close>.
\<close>

type_synonym random_source = "nat \<Rightarrow> nat \<Rightarrow> string"

definition toolCallId :: "random_source \<Rightarrow> nat \<Rightarrow> nat \<Rightarrow> item \<Rightarrow> string" where
  "toolCallId rnd i k t = str_or_default (item_id t) (''tool-'' @ rnd i k)"

definition toolCallWithStatus :: "random_source \<Rightarrow> bool \<Rightarrow> nat \<Rightarrow> nat \<Rightarrow> item \<Rightarrow> tool_call" where
  "toolCallWithStatus rnd interrupt i k t =
     \<lparr>tc_id = toolCallId rnd i k t, tc_name = toolCallName t, tc_args = toolCallArgs t,
      tc_result = None, tc_status = (if interrupt then Interrupted else Pending)\<rparr>"

fun map_indexed :: "(nat \<Rightarrow> 'a \<Rightarrow> 'b) \<Rightarrow> nat \<Rightarrow> 'a list \<Rightarrow> 'b list" where
  "map_indexed f k [] = []"
| "map_indexed f k (x # xs) = f k x # map_indexed f (Suc k) xs"

definition toolCallsWithStatus :: "random_source \<Rightarrow> bool \<Rightarrow> nat \<Rightarrow> message \<Rightarrow> tool_call list" where
  "toolCallsWithStatus rnd interrupt i m =
     map_indexed (toolCallWithStatus rnd interrupt i) 0 (toolCallsInMessage m)"

text \<open>\<open>xs.findIndex(p)\<close>, with \<open>None\<close> for \<open>-1\<close>.\<close>

fun findIndex :: "('a \<Rightarrow> bool) \<Rightarrow> 'a list \<Rightarrow> nat option" where
  "findIndex p [] = None"
| "findIndex p (x # xs) = (if p x then Some 0 else map_option Suc (findIndex p xs))"

definition complete_call :: "string \<Rightarrow> tool_call \<Rightarrow> tool_call" where
  "complete_call txt tc = tc\<lparr>tc_status := Completed, tc_result := Some txt\<rparr>"

text \<open>
  The message map is a JavaScript \<open>Map\<close> keyed by \<open>message.id\<close>: iteration follows
  insertion, and \<open>set\<close> on a key that exists replaces the value where it stands, which
  is \<open>AList.update\<close>. The loop over its entries stops at the first entry holding a
  tool call with the id looked for.
\<close>

type_synonym message_map = "(string option \<times> entry) list"

fun applyToolResult :: "string \<Rightarrow> string \<Rightarrow> message_map \<Rightarrow> message_map" where
  "applyToolResult r txt [] = []"
| "applyToolResult r txt (ke # rest) =
     (case findIndex (\<lambda>tc. tc_id tc = r) (e_toolCalls (snd ke)) of
        None \<Rightarrow> ke # applyToolResult r txt rest
      | Some n \<Rightarrow>
          (fst ke, (snd ke)\<lparr>e_toolCalls :=
              (e_toolCalls (snd ke))[n := complete_call txt (e_toolCalls (snd ke) ! n)]\<rparr>) # rest)"

text \<open>The body of the second \<open>messages.forEach\<close>.\<close>

definition process_message :: "random_source \<Rightarrow> bool \<Rightarrow> nat list \<Rightarrow> nat \<Rightarrow> message \<Rightarrow> message_map \<Rightarrow> message_map" where
  "process_message rnd interrupt skip i m mm =
     (if i \<in> set skip then mm
      else if msg_type m = Ai then
        AList.update (msg_id m) \<lparr>e_message = m, e_toolCalls = toolCallsWithStatus rnd interrupt i m\<rparr> mm
      else if msg_type m = Tool then
        (case msg_tool_call_id m of
           None \<Rightarrow> mm
         | Some r \<Rightarrow> if r = [] then mm else applyToolResult r (extractStringFromMessageContent m) mm)
      else if msg_type m = Human then
        AList.update (msg_id m) \<lparr>e_message = m, e_toolCalls = []\<rparr> mm
      else mm)"

fun process_from :: "random_source \<Rightarrow> bool \<Rightarrow> nat list \<Rightarrow> nat \<Rightarrow> message list \<Rightarrow> message_map \<Rightarrow> message_map" where
  "process_from rnd interrupt skip i [] mm = mm"
| "process_from rnd interrupt skip i (m # ms) mm =
     process_from rnd interrupt skip (Suc i) ms (process_message rnd interrupt skip i m mm)"

definition messageMap :: "json_parser \<Rightarrow> random_source \<Rightarrow> bool \<Rightarrow> message list \<Rightarrow> message_map" where
  "messageMap jp rnd interrupt msgs = process_from rnd interrupt (skipIndices jp msgs) 0 msgs []"

record processed =
  pm_message :: message
  pm_toolCalls :: "tool_call list"
  pm_showAvatar :: bool

text \<open>\<open>showAvatar: data.message.type !== prevMessage?.type\<close>.\<close>

fun with_avatar :: "message_type option \<Rightarrow> entry list \<Rightarrow> processed list" where
  "with_avatar prev [] = []"
| "with_avatar prev (e # es) =
     \<lparr>pm_message = e_message e, pm_toolCalls = e_toolCalls e,
      pm_showAvatar = (Some (msg_type (e_message e)) \<noteq> prev)\<rparr>
     # with_avatar (Some (msg_type (e_message e))) es"

definition processedMessages :: "json_parser \<Rightarrow> random_source \<Rightarrow> bool \<Rightarrow> message list \<Rightarrow> processed list" where
  "processedMessages jp rnd interrupt msgs = with_avatar None (map snd (messageMap jp rnd interrupt msgs))"

section \<open>ChatMessage: phase detail and sub-agents\<close>

text \<open>\<open>parsePhaseStatus\<close>: the decoded marker, or \<open>null\<close>.\<close>

definition parsePhaseStatus :: "json_parser \<Rightarrow> string \<Rightarrow> jsval" where
  "parsePhaseStatus jp content =
     (case match_PHASE_STATUS content of
        None \<Rightarrow> JNull
      | Some g \<Rightarrow> (case jp g of None \<Rightarrow> JNull | Some v \<Rightarrow> v))"

definition phaseStatus :: "json_parser \<Rightarrow> message \<Rightarrow> jsval" where
  "phaseStatus jp m =
     (if msg_type m = Human then JNull else parsePhaseStatus jp (extractStringFromMessageContent m))"

text \<open>
  \<open>for (let i = completedIndex - 1; i >= 0; i--)\<close>: the search for the started marker,
  over the messages before the completed one, nearest first.
\<close>

definition is_started_of :: "json_parser \<Rightarrow> jsval \<Rightarrow> message \<Rightarrow> bool" where
  "is_started_of jp ps m =
     (let status = parsePhaseStatus jp (extractStringFromMessageContent m) in
      truthy status \<and> strict_eq (js_prop status ''phase'') (js_prop ps ''phase'')
      \<and> js_prop status ''status'' = JStr ''started'')"

fun search_started :: "json_parser \<Rightarrow> jsval \<Rightarrow> message list \<Rightarrow> nat \<Rightarrow> nat option" where
  "search_started jp ps all 0 = None"
| "search_started jp ps all (Suc i) =
     (if is_started_of jp ps (all ! i) then Some i else search_started jp ps all i)"

text \<open>
  \<open>s.trim()\<close> is empty exactly when every character of \<open>s\<close> is white space. A
  string is a list of characters below 256; the white space of \<open>trim\<close> and of \<open>\s\<close>
  among them is the tab, the line feed, the vertical tab, the form feed, the carriage
  return, the space and the no-break space.
\<close>

definition is_js_space :: "char \<Rightarrow> bool" where
  "is_js_space c = (c \<in> set [CHR 0x09, CHR 0x0A, CHR 0x0B, CHR 0x0C, CHR 0x0D, CHR 0x20, CHR 0xA0])"

definition trim_nonempty :: "string \<Rightarrow> bool" where
  "trim_nonempty s = list_ex (\<lambda>c. \<not> is_js_space c) s"

definition detail_step :: "json_parser \<Rightarrow> message list \<Rightarrow> nat \<Rightarrow> string list \<Rightarrow> string list" where
  "detail_step jp all i acc =
     (if msg_type (all ! i) = Ai then
        (let content = extractStringFromMessageContent (all ! i) in
         if \<not> truthy (parsePhaseStatus jp content) \<and> trim_nonempty content then acc @ [content]
         else acc)
      else acc)"

text \<open>\<open>xs.join(sep)\<close>.\<close>

fun join_with :: "string \<Rightarrow> string list \<Rightarrow> string" where
  "join_with sep [] = []"
| "join_with sep [x] = x"
| "join_with sep (x # y # ys) = x @ sep @ join_with sep (y # ys)"

definition phaseDetails :: "json_parser \<Rightarrow> message list \<Rightarrow> message \<Rightarrow> string option" where
  "phaseDetails jp all m =
     (let ps = phaseStatus jp m in
      if \<not> truthy ps \<or> js_prop ps ''status'' \<noteq> JStr ''completed'' \<or> all = [] then None
      else
        (case findIndex (\<lambda>x. msg_id x = msg_id m) all of
           None \<Rightarrow> None
         | Some completedIndex \<Rightarrow>
             (case search_started jp ps all completedIndex of
                None \<Rightarrow> None
              | Some startedIndex \<Rightarrow>
                  (let detailMessages = fold (detail_step jp all) [Suc startedIndex..<completedIndex] []
                   in if detailMessages \<noteq> [] then Some (join_with [CHR 0x0A, CHR 0x0A] detailMessages)
                      else None))))"

record sub_agent =
  sa_id :: string
  sa_name :: string
  sa_subAgentName :: jsval
  sa_input :: jsval
  sa_output :: "string option"
  sa_status :: tool_status

text \<open>
  The filter and the projection of \<open>subAgents\<close>. \<open>output\<close> is
  \<open>toolCall.result ? { result: toolCall.result } : undefined\<close>; \<open>sa_output\<close> holds the
  wrapped string.
\<close>

definition is_delegation :: "tool_call \<Rightarrow> bool" where
  "is_delegation tc =
     (tc_name tc = ''task''
      \<and> truthy (js_prop (tc_args tc) ''subagent_type'')
      \<and> js_prop (tc_args tc) ''subagent_type'' \<noteq> JStr []
      \<and> js_prop (tc_args tc) ''subagent_type'' \<noteq> JNull)"

definition to_sub_agent :: "tool_call \<Rightarrow> sub_agent" where
  "to_sub_agent tc =
     \<lparr>sa_id = tc_id tc, sa_name = tc_name tc,
      sa_subAgentName = js_prop (tc_args tc) ''subagent_type'',
      sa_input = tc_args tc,
      sa_output = (case tc_result tc of Some r \<Rightarrow> if r \<noteq> [] then Some r else None | None \<Rightarrow> None),
      sa_status = tc_status tc\<rparr>"

definition subAgents :: "tool_call list \<Rightarrow> sub_agent list" where
  "subAgents tcs = map to_sub_agent (filter is_delegation tcs)"

section \<open>Suggestion Manager (useSuggestions)\<close>

record suggestion =
  sg_short :: string
  sg_full :: string

definition DEFAULT_SUGGESTIONS :: "suggestion list" where
  "DEFAULT_SUGGESTIONS = [
    \<lparr>sg_short = ''Research this'',
     sg_full = ''Please help me conduct thorough research on this topic. I'd like you to explore multiple perspectives, gather relevant data and statistics, identify key experts and sources, and provide a comprehensive overview of the current state of knowledge in this area.''\<rparr>,
    \<lparr>sg_short = ''Summarize points'',
     sg_full = ''Please summarize the key points from our conversation so far. Highlight the most important insights, decisions made, action items identified, and any outstanding questions that still need to be addressed. Organize the summary in a clear and structured format.''\<rparr>,
    \<lparr>sg_short = ''Next steps'',
     sg_full = ''Based on our discussion, what are the recommended next steps I should take? Please provide a prioritized list of actions with clear explanations for each, including any dependencies, estimated effort, and potential risks or considerations I should be aware of.''\<rparr>,
    \<lparr>sg_short = ''Explain details'',
     sg_full = ''Please explain this concept in more detail. Break it down into simpler components, provide relevant examples and analogies, clarify any technical terms, and help me understand both the fundamentals and the nuances of this topic.''\<rparr>,
    \<lparr>sg_short = ''Create plan'',
     sg_full = ''Help me create a comprehensive plan for this project or goal. Include clear objectives, milestones, timelines, resource requirements, potential challenges and mitigation strategies, and success metrics. Structure the plan in phases if appropriate.''\<rparr>,
    \<lparr>sg_short = ''Find related'',
     sg_full = ''Please help me find related information, resources, and connections to this topic. Identify relevant articles, studies, tools, communities, or experts that could provide additional insights. Explain how each resource relates to my current needs.''\<rparr>,
    \<lparr>sg_short = ''Compare options'',
     sg_full = ''Please compare the different options or approaches we've discussed. Create a structured comparison covering pros and cons, costs and benefits, risks and opportunities, and provide a recommendation based on the specific criteria and constraints of my situation.''\<rparr>,
    \<lparr>sg_short = ''Generate ideas'',
     sg_full = ''Help me brainstorm and generate creative ideas for this challenge. Think outside the box, consider unconventional approaches, draw inspiration from different domains, and provide a diverse range of options from practical to innovative solutions.''\<rparr>,
    \<lparr>sg_short = ''Review improve'',
     sg_full = ''Please review what we have so far and suggest improvements. Identify areas that could be strengthened, point out any gaps or inconsistencies, recommend specific enhancements, and help me elevate the quality and effectiveness of this work.''\<rparr>,
    \<lparr>sg_short = ''Key questions'',
     sg_full = ''What are the most important questions I should be asking about this topic or situation? Help me identify blind spots, critical considerations I might have missed, and the key inquiries that will lead to better understanding and decision-making.''\<rparr>,
    \<lparr>sg_short = ''Identify issues'',
     sg_full = ''Please help me identify potential issues, risks, or problems that could arise. Consider technical, practical, and strategic perspectives. For each issue identified, suggest possible mitigation strategies or preventive measures I could implement.''\<rparr>,
    \<lparr>sg_short = ''Best practices'',
     sg_full = ''What are the industry best practices and proven approaches for this type of situation? Share relevant frameworks, methodologies, and lessons learned from successful implementations. Help me understand what separates good execution from great execution.''\<rparr>,
    \<lparr>sg_short = ''Simplify this'',
     sg_full = ''Please help me simplify this concept or process. Break it down into its most essential components, remove unnecessary complexity, and present it in a way that is easier to understand and implement. Focus on clarity and accessibility.''\<rparr>,
    \<lparr>sg_short = ''Provide examples'',
     sg_full = ''Please provide concrete examples that illustrate this concept or approach. Include real-world scenarios, case studies, or practical demonstrations that help me understand how this applies in different contexts and situations.''\<rparr>,
    \<lparr>sg_short = ''Analyze deeper'',
     sg_full = ''Help me analyze this topic more deeply. Look beyond the surface level, examine underlying patterns and relationships, consider different angles and perspectives, and provide insights that reveal the deeper significance and implications.''\<rparr>,
    \<lparr>sg_short = ''Create checklist'',
     sg_full = ''Please create a comprehensive checklist for this task or project. Include all the essential steps, important considerations, quality checks, and verification points that I should address to ensure thorough and successful completion.''\<rparr>,
    \<lparr>sg_short = ''Suggest tools'',
     sg_full = ''What tools, technologies, or resources would you recommend for this task? Please provide specific suggestions with brief explanations of why each tool is suitable, including any alternatives and considerations for different use cases.''\<rparr>,
    \<lparr>sg_short = ''Estimate effort'',
     sg_full = ''Help me estimate the time, resources, and effort required for this task or project. Consider different scenarios, identify factors that could affect the timeline, and provide realistic expectations along with any assumptions made.''\<rparr>,
    \<lparr>sg_short = ''Explore alternatives'',
     sg_full = ''Please explore alternative approaches or solutions to this problem. Present different options I might not have considered, compare their trade-offs, and help me understand which alternatives might work best under different circumstances.''\<rparr>,
    \<lparr>sg_short = ''Validate approach'',
     sg_full = ''Please help me validate this approach or solution. Review the logic and assumptions, identify potential weaknesses or blind spots, suggest improvements, and confirm whether this is a sound and viable path forward.''\<rparr>]"

subsection \<open>The suggestion cache\<close>

text \<open>
  The cache is one \<open>localStorage\<close> item holding the JSON text of an object from cache
  keys to suggestion lists. A \<open>cache_map\<close> lists the members of such a text in the
  order they are written, or the own properties of such an object in the order they
  were created. \<open>NoItem\<close>: the item is missing or empty; \<open>Corrupt\<close>: \<open>JSON.parse\<close>
  rejects its text; \<open>CacheJson\<close>: the text of an object whose values are suggestion
  arrays, as \<open>Record<string, Suggestion[]>\<close> declares.
\<close>

type_synonym cache_map = "(string \<times> suggestion list) list"

datatype stored = NoItem | Corrupt | CacheJson cache_map

text \<open>
  What the functions find around them: whether \<open>window\<close> is defined, and whether
  \<open>localStorage.setItem\<close> throws (the quota is exceeded).
\<close>

record browser =
  br_window :: bool
  br_quota_exceeded :: bool

text \<open>
  An array index is the canonical decimal text of an integer from 0 to \<open>2^32 - 2\<close>.
  An object lists its own properties with the array indices first, in ascending
  order, and the other keys after them in the order of their creation; \<open>Object.keys\<close>
  and \<open>JSON.stringify\<close> follow that order.
\<close>

definition is_digit :: "char \<Rightarrow> bool" where
  "is_digit c = (c \<in> set ''0123456789'')"

definition digits_value :: "string \<Rightarrow> int" where
  "digits_value s = foldl (\<lambda>n c. 10 * n + (of_char c - 48)) 0 s"

definition array_index :: "string \<Rightarrow> int option" where
  "array_index s =
     (if s \<noteq> [] \<and> list_all is_digit s \<and> (s = ''0'' \<or> hd s \<noteq> CHR ''0'') \<and> digits_value s < 4294967295
      then Some (digits_value s) else None)"

definition index_of :: "string \<times> suggestion list \<Rightarrow> int" where
  "index_of e = (case array_index (fst e) of Some n \<Rightarrow> n | None \<Rightarrow> 0)"

definition own_properties :: "cache_map \<Rightarrow> cache_map" where
  "own_properties obj =
     sort_key index_of (filter (\<lambda>e. array_index (fst e) \<noteq> None) obj)
     @ filter (\<lambda>e. array_index (fst e) = None) obj"

definition Object_keys :: "cache_map \<Rightarrow> string list" where
  "Object_keys obj = map fst (own_properties obj)"

text \<open>
  \<open>JSON.parse\<close> of the text of an object: each member defines an own property, in the
  order of the text; a key that comes again keeps its place and takes the later value.
  \<open>JSON.stringify\<close> writes the own properties in their order.
\<close>

definition JSON_parse :: "cache_map \<Rightarrow> cache_map" where
  "JSON_parse members = fold (\<lambda>e obj. AList.update (fst e) (snd e) obj) members []"

definition JSON_stringify :: "cache_map \<Rightarrow> cache_map" where
  "JSON_stringify obj = own_properties obj"

text \<open>
  The names every object inherits from \<open>Object.prototype\<close>; all of them are
  functions but \<open>__proto__\<close>, an accessor that reads and writes the prototype.
\<close>

definition Object_prototype :: "string list" where
  "Object_prototype =
     [''constructor'', ''__defineGetter__'', ''__defineSetter__'', ''hasOwnProperty'',
      ''__lookupGetter__'', ''__lookupSetter__'', ''isPrototypeOf'', ''propertyIsEnumerable'',
      ''toString'', ''valueOf'', ''__proto__'', ''toLocaleString'']"

text \<open>
  What \<open>cacheMap[cacheKey] || null\<close> gives: the own property, else the inherited one
  (an object or a function, so truthy), else \<open>null\<close>.
\<close>

datatype cached = Suggestions "suggestion list" | Inherited string

definition get_property :: "cache_map \<Rightarrow> string \<Rightarrow> cached option" where
  "get_property obj k =
     (case map_of obj k of
        Some v \<Rightarrow> Some (Suggestions v)
      | None \<Rightarrow> if k \<in> set Object_prototype then Some (Inherited k) else None)"

text \<open>
  \<open>cacheMap[cacheKey] = suggestions\<close>: an own property is overwritten in place; a new
  key defines a new own property, except \<open>__proto__\<close>, whose inherited setter makes the
  array the prototype of the object and defines nothing.
\<close>

definition set_property :: "cache_map \<Rightarrow> string \<Rightarrow> suggestion list \<Rightarrow> cache_map" where
  "set_property obj k v =
     (if k = ''__proto__'' \<and> map_of obj k = None then obj else AList.update k v obj)"

definition getCachedSuggestions :: "browser \<Rightarrow> stored \<Rightarrow> string \<Rightarrow> cached option" where
  "getCachedSuggestions env st cacheKey =
     (if \<not> br_window env then None
      else (case st of
              NoItem \<Rightarrow> None
            | Corrupt \<Rightarrow> None
            | CacheJson members \<Rightarrow> get_property (JSON_parse members) cacheKey))"

text \<open>\<open>cached ? JSON.parse(cached) : {}\<close>.\<close>

definition cache_object :: "stored \<Rightarrow> cache_map" where
  "cache_object st = (case st of CacheJson members \<Rightarrow> JSON_parse members | NoItem \<Rightarrow> [] | Corrupt \<Rightarrow> [])"

text \<open>
  \<open>keys.slice(0, keys.length - 50)\<close> and the \<open>delete\<close> of each: the limit of the
  cache.
\<close>

definition limit_cache :: "cache_map \<Rightarrow> cache_map" where
  "limit_cache cacheMap =
     (let keys = Object_keys cacheMap in
      if length keys > 50 then fold AList.delete (take (length keys - 50) keys) cacheMap
      else cacheMap)"

definition saveSuggestionsToCache :: "browser \<Rightarrow> stored \<Rightarrow> string \<Rightarrow> suggestion list \<Rightarrow> stored" where
  "saveSuggestionsToCache env st cacheKey suggestions =
     (if \<not> br_window env then st
      else if st = Corrupt then st
      else (let cacheMap = limit_cache (set_property (cache_object st) cacheKey suggestions) in
            if br_quota_exceeded env then st else CacheJson (JSON_stringify cacheMap)))"

subsection \<open>Generation\<close>

text \<open>
  The configuration \<open>getConfig()\<close> returns (\<open>lib/config\<close> is not among the source
  files; these are the fields the hook reads), or \<open>null\<close>.
\<close>

record open_router_config =
  or_apiKey :: "string option"
  or_baseUrl :: "string option"

record config =
  cf_activeProvider :: "string option"
  cf_openaiApiKey :: "string option"
  cf_anthropicApiKey :: "string option"
  cf_googleApiKey :: "string option"
  cf_openRouterConfig :: "open_router_config option"

definition str_truthy :: "string option \<Rightarrow> bool" where
  "str_truthy a = (case a of Some s \<Rightarrow> s \<noteq> [] | None \<Rightarrow> False)"

datatype key_choice = ReturnDefaults | NoApiKey | ApiKey string string

text \<open>
  The provider chain at the head of \<open>generateSuggestionsWithLLM\<close>:
  \<open>ApiKey key baseUrl\<close>, an early \<open>return DEFAULT_SUGGESTIONS\<close> for a provider the
  direct call does not support, or no key at all.
\<close>

definition select_api_key :: "config option \<Rightarrow> key_choice" where
  "select_api_key cfg =
     (case cfg of
        None \<Rightarrow> NoApiKey
      | Some c \<Rightarrow>
          if cf_activeProvider c = Some ''openai'' \<and> str_truthy (cf_openaiApiKey c) then
            ApiKey (str_or_default (cf_openaiApiKey c) []) ''https://api.openai.com/v1''
          else if cf_activeProvider c = Some ''anthropic'' \<and> str_truthy (cf_anthropicApiKey c) then
            ReturnDefaults
          else if cf_activeProvider c = Some ''google'' \<and> str_truthy (cf_googleApiKey c) then
            ReturnDefaults
          else if cf_activeProvider c = Some ''openrouter''
               \<and> str_truthy (case cf_openRouterConfig c of Some r \<Rightarrow> or_apiKey r | None \<Rightarrow> None) then
            (case cf_openRouterConfig c of
               Some r \<Rightarrow>
                 ApiKey (str_or_default (or_apiKey r) [])
                   (str_or_default (or_baseUrl r) ''https://openrouter.ai/api/v1'')
             | None \<Rightarrow> NoApiKey)
          else NoApiKey)"

text \<open>
  The network is a parameter: what \<open>fetch\<close> does for a request (the URL, the key
  and the user prompt are the parts of the request modelled; the model name chosen from
  the configuration goes into the body as well and has no other effect). A response
  says whether \<open>ok\<close> holds and what \<open>text()\<close> and \<open>json()\<close> give, \<open>None\<close> being a
  rejected promise.
\<close>

record http_response =
  rs_ok :: bool
  rs_text :: "string option"
  rs_json :: "jsval option"

datatype fetch_result = FetchRejected | FetchResponse http_response

type_synonym network = "string \<Rightarrow> string \<Rightarrow> string \<Rightarrow> fetch_result"

datatype js_error = TypeError | SyntaxError | NetworkError | BodyError

definition nullish :: "jsval \<Rightarrow> bool" where
  "nullish v = (v = JNull \<or> v = JUndefined)"

text \<open>\<open>v?.k\<close> and \<open>v?.[0]\<close>.\<close>

definition opt_prop :: "jsval \<Rightarrow> string \<Rightarrow> jsval" where
  "opt_prop v k = (if nullish v then JUndefined else js_prop v k)"

definition opt_index0 :: "jsval \<Rightarrow> jsval" where
  "opt_index0 v =
     (case v of
        JArr xs \<Rightarrow> (case xs of [] \<Rightarrow> JUndefined | x # r \<Rightarrow> x)
      | JStr s \<Rightarrow> (case s of [] \<Rightarrow> JUndefined | c # r \<Rightarrow> JStr [c])
      | JObj kvs \<Rightarrow> js_prop (JObj kvs) ''0''
      | JUndefined \<Rightarrow> JUndefined
      | JNull \<Rightarrow> JUndefined
      | JBool b \<Rightarrow> JUndefined
      | JNum n \<Rightarrow> JUndefined)"

text \<open>
  \<open>data.choices?.[0]?.message?.content || ""\<close>; reading \<open>choices\<close> of \<open>null\<close>
  throws.
\<close>

definition response_content :: "jsval \<Rightarrow> js_error + jsval" where
  "response_content data =
     (if nullish data then Inl TypeError
      else Inr (js_or (opt_prop (opt_prop (opt_index0 (js_prop data ''choices'')) ''message'') ''content'')
                  (JStr [])))"

text \<open>Splitting \<open>s\<close> at the first occurrence of \<open>n\<close>.\<close>

fun split_at_first :: "string \<Rightarrow> string \<Rightarrow> string \<Rightarrow> (string \<times> string) option" where
  "split_at_first n acc [] = (if n = [] then Some (acc, []) else None)"
| "split_at_first n acc (c # cs) =
     (if starts_with n (c # cs) then Some (acc, drop (length n) (c # cs))
      else split_at_first n (acc @ [c]) cs)"

definition js_trim :: "string \<Rightarrow> string" where
  "js_trim s = rev (dropWhile is_js_space (rev (dropWhile is_js_space s)))"

text \<open>
  \<open>/```(?:json)?\s*([\s\S]*?)```/\<close>: after the first fence, an optional \<open>json\<close> and
  white space; the lazy group ends at the next fence.
\<close>

definition code_fence_match :: "string \<Rightarrow> string option" where
  "code_fence_match s =
     (case split_at_first ''```'' [] s of
        None \<Rightarrow> None
      | Some (before, r1) \<Rightarrow>
          (let r2 = (if starts_with ''json'' r1 then drop 4 r1 else r1);
               r3 = dropWhile is_js_space r2
           in map_option fst (split_at_first ''```'' [] r3)))"

text \<open>\<open>/\[[\s\S]*\]/\<close>: greedy, from the first \<open>[\<close> to the last \<open>]\<close> after it.\<close>

definition array_match :: "string \<Rightarrow> string option" where
  "array_match s =
     (let r = dropWhile (\<lambda>c. c \<noteq> CHR ''['') s in
      if CHR '']'' \<in> set r then Some (rev (dropWhile (\<lambda>c. c \<noteq> CHR '']'') (rev r))) else None)"

definition extract_json_text :: "string \<Rightarrow> string" where
  "extract_json_text fullResponse =
     (case code_fence_match fullResponse of
        Some g \<Rightarrow> js_trim g
      | None \<Rightarrow> (case array_match fullResponse of Some a \<Rightarrow> a | None \<Rightarrow> fullResponse))"

text \<open>
  \<open>s.split(/\s+/)\<close>: the pieces between the maximal runs of white space, an empty
  piece standing before a leading run and after a trailing one.
\<close>

fun split_ws_aux :: "bool \<Rightarrow> string \<Rightarrow> string \<Rightarrow> string list" where
  "split_ws_aux inws cur [] = [cur]"
| "split_ws_aux inws cur (c # cs) =
     (if is_js_space c then
        (if inws then split_ws_aux True cur cs else cur # split_ws_aux True [] cs)
      else split_ws_aux False (cur @ [c]) cs)"

definition split_ws :: "string \<Rightarrow> string list" where
  "split_ws s = split_ws_aux False [] s"

text \<open>The predicate of the \<open>filter\<close> over the decoded array.\<close>

definition js_typeof :: "jsval \<Rightarrow> string" where
  "js_typeof v =
     (case v of
        JUndefined \<Rightarrow> ''undefined''
      | JNull \<Rightarrow> ''object''
      | JBool b \<Rightarrow> ''boolean''
      | JNum n \<Rightarrow> ''number''
      | JStr s \<Rightarrow> ''string''
      | JArr xs \<Rightarrow> ''object''
      | JObj kvs \<Rightarrow> ''object'')"

definition js_in :: "string \<Rightarrow> jsval \<Rightarrow> bool" where
  "js_in k v = (case v of JObj kvs \<Rightarrow> map_of kvs k \<noteq> None | _ \<Rightarrow> False)"

definition js_string :: "jsval \<Rightarrow> string" where
  "js_string v = (case v of JStr s \<Rightarrow> s | _ \<Rightarrow> [])"

definition valid_item :: "jsval \<Rightarrow> bool" where
  "valid_item s =
     (truthy s \<and> js_typeof s = ''object''
      \<and> js_in ''short'' s \<and> js_in ''full'' s
      \<and> js_typeof (js_prop s ''short'') = ''string''
      \<and> js_typeof (js_prop s ''full'') = ''string''
      \<and> length (split_ws (js_string (js_prop s ''full''))) \<ge> 15)"

definition clean_item :: "jsval \<Rightarrow> suggestion" where
  "clean_item s =
     \<lparr>sg_short = take 30 (js_string (js_prop s ''short'')), sg_full = js_string (js_prop s ''full'')\<rparr>"

text \<open>
  The inner \<open>try\<close>: \<open>None\<close> when \<open>JSON.parse\<close> throws (caught and logged), when the
  value is not a non-empty array, or when fewer than 3 valid items remain.
\<close>

definition parse_suggestions :: "json_parser \<Rightarrow> string \<Rightarrow> suggestion list option" where
  "parse_suggestions jp jsonStr =
     (case jp jsonStr of
        None \<Rightarrow> None
      | Some parsed \<Rightarrow>
          (case parsed of
             JArr xs \<Rightarrow>
               if xs \<noteq> [] then
                 (let validSuggestions = map clean_item (take 20 (filter valid_item xs)) in
                  if length validSuggestions \<ge> 3 then Some validSuggestions else None)
               else None
           | _ \<Rightarrow> None))"

text \<open>
  The outer \<open>try\<close> block: \<open>Inl\<close> is an exception on its way to the \<open>catch\<close>,
  \<open>Inr (Some r)\<close> a \<open>return r\<close>, \<open>Inr None\<close> falling out of the block.
\<close>

definition generate_try :: "json_parser \<Rightarrow> fetch_result \<Rightarrow> js_error + suggestion list option" where
  "generate_try jp res =
     (case res of
        FetchRejected \<Rightarrow> Inl NetworkError
      | FetchResponse response \<Rightarrow>
          if \<not> rs_ok response then
            (case rs_text response of
               None \<Rightarrow> Inl BodyError
             | Some errorText \<Rightarrow> Inr (Some DEFAULT_SUGGESTIONS))
          else
            (case rs_json response of
               None \<Rightarrow> Inl BodyError
             | Some data \<Rightarrow>
                 (case response_content data of
                    Inl e \<Rightarrow> Inl e
                  | Inr fullResponse \<Rightarrow>
                      if truthy fullResponse then
                        (case fullResponse of
                           JStr s \<Rightarrow> Inr (parse_suggestions jp (extract_json_text s))
                         | _ \<Rightarrow> Inl TypeError)
                      else Inr None)))"

definition user_prompt :: "string \<Rightarrow> string" where
  "user_prompt conversationContext = take 3000 conversationContext"

text \<open>
  \<open>generateSuggestionsWithLLM\<close>. The result is a sum so that "it never throws" is a
  statement about it: \<open>Inl\<close> would be an exception reaching the caller.
\<close>

definition generateSuggestionsWithLLM ::
  "json_parser \<Rightarrow> config option \<Rightarrow> network \<Rightarrow> string \<Rightarrow> js_error + suggestion list" where
  "generateSuggestionsWithLLM jp cfg net conversationContext =
     (case select_api_key cfg of
        ReturnDefaults \<Rightarrow> Inr DEFAULT_SUGGESTIONS
      | NoApiKey \<Rightarrow> Inr DEFAULT_SUGGESTIONS
      | ApiKey apiKey baseUrl \<Rightarrow>
          (case generate_try jp (net (baseUrl @ ''/chat/completions'') apiKey (user_prompt conversationContext)) of
             Inl e \<Rightarrow> Inr DEFAULT_SUGGESTIONS
           | Inr None \<Rightarrow> Inr DEFAULT_SUGGESTIONS
           | Inr (Some r) \<Rightarrow> Inr r))"

subsection \<open>Loading\<close>

text \<open>
  \<open>getLastAIMessageContext\<close>: the last \<open>ai\<close> message, as \<open>{ id, content }\<close>.
\<close>

definition getLastAIMessageContext :: "message list \<Rightarrow> (string option \<times> string) option" where
  "getLastAIMessageContext msgs =
     map_option (\<lambda>m. (msg_id m, extractStringFromMessageContent m))
       (find (\<lambda>m. msg_type m = Ai) (rev msgs))"

text \<open>
  \<open>`${threadId || "new"}_${lastAIMessage.id}`\<close>; a missing id prints as
  \<open>undefined\<close>.
\<close>

definition cache_key :: "string option \<Rightarrow> string option \<Rightarrow> string" where
  "cache_key threadId mid =
     str_or_default threadId ''new'' @ ''_'' @ (case mid of Some s \<Rightarrow> s | None \<Rightarrow> ''undefined'')"

text \<open>
  The state \<open>loadSuggestions\<close> works on: the hook's two state variables and the
  stored cache. The suggestions are whatever \<open>setSuggestions\<close> was given last, which
  after a cache hit is what the lookup returned. \<open>formatConversationForLLM\<close> (of
  \<open>app/utils/utils\<close>, not among the source files) is the parameter \<open>fmt\<close>.
\<close>

record hook_state =
  hs_suggestions :: cached
  hs_isRefreshing :: bool
  hs_storage :: stored

definition loadSuggestions ::
  "json_parser \<Rightarrow> browser \<Rightarrow> config option \<Rightarrow> network \<Rightarrow> (message list \<Rightarrow> string)
     \<Rightarrow> string option \<Rightarrow> message list \<Rightarrow> hook_state \<Rightarrow> hook_state" where
  "loadSuggestions jp env cfg net fmt threadId msgs st =
     (case getLastAIMessageContext msgs of
        None \<Rightarrow> st\<lparr>hs_suggestions := Suggestions DEFAULT_SUGGESTIONS\<rparr>
      | Some lastAIMessage \<Rightarrow>
          if msgs = [] then st\<lparr>hs_suggestions := Suggestions DEFAULT_SUGGESTIONS\<rparr>
          else
            (let cachedKey = cache_key threadId (fst lastAIMessage) in
             case getCachedSuggestions env (hs_storage st) cachedKey of
               Some cachedSuggestions \<Rightarrow> st\<lparr>hs_suggestions := cachedSuggestions\<rparr>
             | None \<Rightarrow>
                 (case generateSuggestionsWithLLM jp cfg net (fmt msgs) of
                    Inr newSuggestions \<Rightarrow>
                      st\<lparr>hs_storage := saveSuggestionsToCache env (hs_storage st) cachedKey newSuggestions,
                         hs_suggestions := Suggestions newSuggestions, hs_isRefreshing := False\<rparr>
                  | Inl e \<Rightarrow> st\<lparr>hs_suggestions := Suggestions DEFAULT_SUGGESTIONS, hs_isRefreshing := False\<rparr>)))"

section \<open>Notions the statements use\<close>

text \<open>A record of the phase-status array is of phase \<open>p\<close> and of status \<open>st\<close>.\<close>

definition status_match :: "string \<Rightarrow> jsval \<Rightarrow> nat \<times> phase_rec \<Rightarrow> bool" where
  "status_match st p e = (strict_eq (pr_phase (snd e)) p \<and> pr_status (snd e) = JStr st)"

text \<open>All tool calls of a message map, in the order the result loop meets them.\<close>

definition flat_calls :: "message_map \<Rightarrow> tool_call list" where
  "flat_calls mm = concat (map (\<lambda>ke. e_toolCalls (snd ke)) mm)"

text \<open>
  A message whose text the detail view collects: an \<open>ai\<close> message whose text is no
  phase marker and is not blank.
\<close>

definition detail_text :: "json_parser \<Rightarrow> message \<Rightarrow> bool" where
  "detail_text jp x =
     (msg_type x = Ai
      \<and> \<not> truthy (parsePhaseStatus jp (extractStringFromMessageContent x))
      \<and> trim_nonempty (extractStringFromMessageContent x))"

text \<open>
  No tool result of the list answers an id that the random source can make up: the
  ids drawn for tool calls that came without one are fresh.
\<close>

definition fresh_ids :: "random_source \<Rightarrow> message list \<Rightarrow> bool" where
  "fresh_ids rnd msgs = (\<forall>m\<in>set msgs. \<forall>i k. msg_tool_call_id m \<noteq> Some (''tool-'' @ rnd i k))"

text \<open>What a derivation shows of a tool call and of a message, the drawn ids apart.\<close>

definition call_view :: "tool_call \<Rightarrow> string \<times> jsval \<times> string option \<times> tool_status" where
  "call_view tc = (tc_name tc, tc_args tc, tc_result tc, tc_status tc)"

definition derived_view :: "processed \<Rightarrow> message \<times> bool \<times> (string \<times> jsval \<times> string option \<times> tool_status) list" where
  "derived_view p = (pm_message p, pm_showAvatar p, map call_view (pm_toolCalls p))"

text \<open>The relation between two derivations that differ in their random source only.\<close>

definition generated :: "random_source \<Rightarrow> random_source \<Rightarrow> string set" where
  "generated rnd1 rnd2 = {g. \<exists>i k. g = ''tool-'' @ rnd1 i k \<or> g = ''tool-'' @ rnd2 i k}"

definition tc_sim :: "string set \<Rightarrow> tool_call \<Rightarrow> tool_call \<Rightarrow> bool" where
  "tc_sim G a b = (call_view a = call_view b \<and> (tc_id a = tc_id b \<or> (tc_id a \<in> G \<and> tc_id b \<in> G)))"

definition e_sim :: "string set \<Rightarrow> string option \<times> entry \<Rightarrow> string option \<times> entry \<Rightarrow> bool" where
  "e_sim G x y = (fst x = fst y \<and> e_message (snd x) = e_message (snd y)
                  \<and> list_all2 (tc_sim G) (e_toolCalls (snd x)) (e_toolCalls (snd y)))"


text \<open>
  The members of the stored text, and a store the cache functions have produced
  from keys that are no array indices: an item that decodes, with each key once, at
  most 50 of them and no array index among them. The missing item is one.
\<close>

definition stored_map :: "stored \<Rightarrow> cache_map" where
  "stored_map st = (case st of CacheJson members \<Rightarrow> members | NoItem \<Rightarrow> [] | Corrupt \<Rightarrow> [])"

definition cache_wf :: "stored \<Rightarrow> bool" where
  "cache_wf st =
     (st \<noteq> Corrupt \<and> distinct (map fst (stored_map st)) \<and> length (stored_map st) \<le> 50
      \<and> (\<forall>k\<in>set (map fst (stored_map st)). array_index k = None))"

text \<open>
  A sequence of cache writes; what one write under a key that is no array index does
  to the list of keys; and the keys of a sequence of writes that were not in the
  cache before and that a write defines.
\<close>

definition save_all :: "browser \<Rightarrow> (string \<times> suggestion list) list \<Rightarrow> stored \<Rightarrow> stored" where
  "save_all env ws st = fold (\<lambda>w s. saveSuggestionsToCache env s (fst w) (snd w)) ws st"

definition keys_after_save :: "string list \<Rightarrow> string \<Rightarrow> string list" where
  "keys_after_save ks k =
     (let ks' = (if k \<in> set ks \<or> k = ''__proto__'' then ks else ks @ [k]) in drop (length ks' - 50) ks')"

definition newer_keys :: "string list \<Rightarrow> (string \<times> suggestion list) list \<Rightarrow> string list" where
  "newer_keys old ws = remdups (filter (\<lambda>k. k \<notin> set old \<and> k \<noteq> ''__proto__'') (map fst ws))"

section \<open>Example inputs\<close>

text \<open>
  \<open>JSON.parse\<close> on the texts the examples below use, and on nothing else: each line
  is the value \<open>JSON.parse\<close> gives for that text.
\<close>

definition three_items_json :: string where
  \<open>three_items_json =
     ''[{"short":"Compare","full":"a b c d e f g h i j k l m n o"},{"short":"Plan","full":"a b c d e f g h i j k l m n o p"},{"short":"Risks","full":"a b c d e f g h i j k l m n o p q"}]''\<close>

text \<open>The completion of Scenario D.\<close>

definition scenario_D_json :: string where
  \<open>scenario_D_json = ''[{"short":"ok"}]''\<close>

definition demo_parse :: json_parser where
  \<open>demo_parse s =
     (if s = ''{"phase":1,"status":"started"}'' then
        Some (JObj [(''phase'', JNum 1), (''status'', JStr ''started'')])
      else if s = ''{"phase":1,"status":"completed","summary":"done"}'' then
        Some (JObj [(''phase'', JNum 1), (''status'', JStr ''completed''), (''summary'', JStr ''done'')])
      else if s = ''{"phase":2,"status":"started"}'' then
        Some (JObj [(''phase'', JNum 2), (''status'', JStr ''started'')])
      else if s = ''{"phase":2,"status":"completed"}'' then
        Some (JObj [(''phase'', JNum 2), (''status'', JStr ''completed'')])
      else if s = scenario_D_json then
        Some (JArr [JObj [(''short'', JStr ''ok'')]])
      else if s = three_items_json then
        Some (JArr
          [JObj [(''short'', JStr ''Compare''), (''full'', JStr ''a b c d e f g h i j k l m n o'')],
           JObj [(''short'', JStr ''Plan''), (''full'', JStr ''a b c d e f g h i j k l m n o p'')],
           JObj [(''short'', JStr ''Risks''), (''full'', JStr ''a b c d e f g h i j k l m n o p q'')]])
      else None)\<close>

definition started_1 :: string where
  \<open>started_1 = ''__PHASE_STATUS__{"phase":1,"status":"started"}__''\<close>

definition completed_1 :: string where
  \<open>completed_1 = ''__PHASE_STATUS__{"phase":1,"status":"completed","summary":"done"}__''\<close>



definition text_message :: "string \<Rightarrow> message_type \<Rightarrow> string \<Rightarrow> message" where
  "text_message mid ty body =
     \<lparr>msg_id = Some mid, msg_type = ty, msg_content = CString body,
      msg_additional_tool_calls = None, msg_tool_calls = None, msg_tool_call_id = None\<rparr>"

definition tool_result_message :: "string \<Rightarrow> string \<Rightarrow> string \<Rightarrow> message" where
  "tool_result_message mid ref body =
     \<lparr>msg_id = Some mid, msg_type = Tool, msg_content = CString body,
      msg_additional_tool_calls = None, msg_tool_calls = None, msg_tool_call_id = Some ref\<rparr>"

text \<open>A tool call \<open>{ id, name, args: {} }\<close> of the first-class array.\<close>

definition named_call :: "string option \<Rightarrow> string \<Rightarrow> item" where
  "named_call cid nm =
     \<lparr>item_id = cid, item_function = None, item_name = Some nm, item_type = None,
      item_args = JObj [], item_input = JUndefined, item_text = None\<rparr>"

definition calling_message :: "string \<Rightarrow> string \<Rightarrow> item list \<Rightarrow> message" where
  "calling_message mid body calls =
     \<lparr>msg_id = Some mid, msg_type = Ai, msg_content = CString body,
      msg_additional_tool_calls = None, msg_tool_calls = Some calls, msg_tool_call_id = None\<rparr>"

text \<open>Scenario A of the specification.\<close>

definition scenario_A :: "message list" where
  "scenario_A =
     [text_message ''m0'' Human ''hi'',
      text_message ''m1'' Ai started_1,
      text_message ''m2'' Ai ''working...'',
      text_message ''m3'' Ai completed_1]"

text \<open>A phase that is started twice before it completes.\<close>

definition restarted_phase :: "message list" where
  "restarted_phase =
     [text_message ''a0'' Ai started_1,
      text_message ''a1'' Ai ''first try'',
      text_message ''a2'' Ai started_1,
      text_message ''a3'' Ai ''second try'',
      text_message ''a4'' Ai completed_1]"


text \<open>A phase whose range holds a tool call, its result and a note.\<close>

definition phase_with_tool :: "message list" where
  "phase_with_tool =
     [text_message ''p0'' Ai started_1,
      calling_message ''p1'' ''Searching'' [named_call (Some ''t1'') ''search''],
      tool_result_message ''p2'' ''t1'' ''3 results'',
      text_message ''p3'' Ai ''notes'',
      text_message ''p4'' Ai completed_1]"

text \<open>Scenario B of the specification, followed by a second result for the same call.\<close>

definition duplicate_results :: "message list" where
  "duplicate_results =
     [calling_message ''d0'' '''' [named_call (Some ''t1'') ''search''],
      tool_result_message ''d1'' ''t1'' ''first'',
      tool_result_message ''d2'' ''t1'' ''second'']"

text \<open>A tool call without an id, answered by nothing, and one with an id and its result.\<close>

definition unnamed_call_list :: "message list" where
  "unnamed_call_list =
     [text_message ''u0'' Human ''go'',
      calling_message ''u1'' '''' [named_call None ''search'', named_call (Some ''t2'') ''fetch''],
      tool_result_message ''u2'' ''t2'' ''page'']"

definition half :: random_source where
  "half i k = ''0.5''"

definition quarter :: random_source where
  "quarter i k = ''0.25''"

text \<open>The message map once the call of Scenario B is issued.\<close>

definition call_issued :: message_map where
  "call_issued = messageMap demo_parse half False [calling_message ''d0'' [] [named_call (Some ''t1'') ''search'']]"

text \<open>
  An \<open>ai\<close> message with an empty structured array, one first-class tool call and one
  \<open>tool_use\<close> block.
\<close>

definition empty_additional :: message where
  "empty_additional =
     \<lparr>msg_id = Some ''e0'', msg_type = Ai,
      msg_content = CBlocks [\<lparr>item_id = Some ''t1'', item_function = None, item_name = Some ''search'',
                              item_type = Some ''tool_use'', item_args = JUndefined,
                              item_input = JObj [], item_text = None\<rparr>],
      msg_additional_tool_calls = Some [],
      msg_tool_calls = Some [named_call (Some ''t1'') ''search''],
      msg_tool_call_id = None\<rparr>"

definition task_call :: "string \<Rightarrow> jsval \<Rightarrow> string option \<Rightarrow> tool_status \<Rightarrow> tool_call" where
  "task_call cid target res st =
     \<lparr>tc_id = cid, tc_name = ''task'', tc_args = JObj [(''subagent_type'', target)],
      tc_result = res, tc_status = st\<rparr>"

definition browser_ok :: browser where
  "browser_ok = \<lparr>br_window = True, br_quota_exceeded = False\<rparr>"



definition offline_network :: network where
  "offline_network url key prompt = FetchRejected"

definition empty_hook_state :: hook_state where
  "empty_hook_state = \<lparr>hs_suggestions = Suggestions [], hs_isRefreshing = False, hs_storage = NoItem\<rparr>"

text \<open>A browser whose storage is full.\<close>

definition browser_full :: browser where
  "browser_full = \<lparr>br_window = True, br_quota_exceeded = True\<rparr>"

text \<open>Fifty later writes, under fifty other keys, and the cache they leave.\<close>

definition fifty_writes :: "(string \<times> suggestion list) list" where
  "fifty_writes = map (\<lambda>n. ([CHR ''k'', CHR ''_'', char_of (65 + n)], [])) [0..<50]"

definition full_store :: stored where
  "full_store = CacheJson fifty_writes"

section \<open>Properties\<close>

lemma psi_from_mem:
  "(i, d) \<in> set (phaseStatusIndices_from jp n ms) \<longleftrightarrow>
     n \<le> i \<and> i - n < length ms \<and> phase_record_of jp (ms ! (i - n)) = Some d"
proof (induction ms arbitrary: n)
  case Nil
  then show ?case by simp
next
  case (Cons m ms)
  show ?case
  proof (cases "i = n")
    case True
    then show ?thesis using Cons[of "Suc n"] by (auto split: option.splits)
  next
    case False
    then show ?thesis using Cons[of "Suc n"]
      by (auto split: option.splits simp: nth_Cons' Suc_diff_le)
  qed
qed

lemma psi_from_lower: "e \<in> set (phaseStatusIndices_from jp n ms) \<Longrightarrow> n \<le> fst e"
  using psi_from_mem[of "fst e" "snd e" jp n ms] by simp

lemma psi_from_sorted: "sorted_wrt (<) (map fst (phaseStatusIndices_from jp n ms))"
proof (induction ms arbitrary: n)
  case Nil
  then show ?case by simp
next
  case (Cons m ms)
  have "\<And>e. e \<in> set (phaseStatusIndices_from jp (Suc n) ms) \<Longrightarrow> n < fst e"
    using psi_from_lower[of _ jp "Suc n" ms] by fastforce
  then show ?case using Cons[of "Suc n"] by (auto split: option.splits)
qed

lemma phaseStatusArray_eq: "phaseStatusArray jp msgs = phaseStatusIndices jp msgs"
proof -
  have "sorted (map fst (phaseStatusIndices jp msgs))"
    unfolding phaseStatusIndices_def
    using psi_from_sorted[of jp 0 msgs] sorted_wrt_mono_rel[of _ "(<)" "(\<le>)"]
    by (metis (no_types, lifting) less_imp_le)
  then show ?thesis by (simp add: phaseStatusArray_def sort_key_id_if_sorted)
qed

lemma find_started:
  assumes "sorted_wrt (<) (map fst arr)"
  shows "(case fst (findPhaseIndices arr p) of
            None \<Rightarrow> \<forall>e\<in>set arr. \<not> status_match ''started'' p e
          | Some i \<Rightarrow> (\<exists>e\<in>set arr. fst e = i \<and> status_match ''started'' p e)
                      \<and> (\<forall>e\<in>set arr. status_match ''started'' p e \<longrightarrow> fst e \<le> i))"
  using assms
proof (induction arr rule: rev_induct)
  case Nil
  then show ?case by (simp add: findPhaseIndices_def)
next
  case (snoc x xs)
  have sx: "sorted_wrt (<) (map fst xs)" and lt: "\<forall>e\<in>set xs. fst e < fst x"
    using snoc.prems by (auto simp: sorted_wrt_append)
  have step: "findPhaseIndices (xs @ [x]) p = find_step p x (findPhaseIndices xs p)"
    by (simp add: findPhaseIndices_def)
  show ?case
  proof (cases "status_match ''started'' p x")
    case True
    then have "fst (findPhaseIndices (xs @ [x]) p) = Some (fst x)"
      by (simp add: step find_step_def status_match_def)
    then show ?thesis using True lt by (auto simp: less_imp_le)
  next
    case False
    then have "fst (findPhaseIndices (xs @ [x]) p) = fst (findPhaseIndices xs p)"
      by (auto simp: step find_step_def status_match_def)
    then show ?thesis using False snoc.IH[OF sx] by (auto split: option.splits)
  qed
qed

lemma find_completed:
  assumes "sorted_wrt (<) (map fst arr)"
  shows "(case snd (findPhaseIndices arr p) of
            None \<Rightarrow> \<forall>e\<in>set arr. \<not> status_match ''completed'' p e
          | Some i \<Rightarrow> (\<exists>e\<in>set arr. fst e = i \<and> status_match ''completed'' p e)
                      \<and> (\<forall>e\<in>set arr. status_match ''completed'' p e \<longrightarrow> fst e \<le> i))"
  using assms
proof (induction arr rule: rev_induct)
  case Nil
  then show ?case by (simp add: findPhaseIndices_def)
next
  case (snoc x xs)
  have sx: "sorted_wrt (<) (map fst xs)" and lt: "\<forall>e\<in>set xs. fst e < fst x"
    using snoc.prems by (auto simp: sorted_wrt_append)
  have step: "findPhaseIndices (xs @ [x]) p = find_step p x (findPhaseIndices xs p)"
    by (simp add: findPhaseIndices_def)
  show ?case
  proof (cases "status_match ''completed'' p x")
    case True
    then have "snd (findPhaseIndices (xs @ [x]) p) = Some (fst x)"
      by (simp add: step find_step_def status_match_def)
    then show ?thesis using True lt by (auto simp: less_imp_le)
  next
    case False
    then have "snd (findPhaseIndices (xs @ [x]) p) = snd (findPhaseIndices xs p)"
      by (auto simp: step find_step_def status_match_def)
    then show ?thesis using False snoc.IH[OF sx] by (auto split: option.splits)
  qed
qed

lemma set_hideBetween:
  "set (hideBetween msgs s c skip) =
     set skip \<union> {j. s < j \<and> j < c \<and> msg_type (msgs ! j) = Ai \<and> \<not> hasToolCalls (msgs ! j)}"
proof -
  have "\<And>skip. set (fold (hide_step msgs) js skip) =
      set skip \<union> {j \<in> set js. msg_type (msgs ! j) = Ai \<and> \<not> hasToolCalls (msgs ! j)}" for js
    by (induction js) (auto simp: hide_step_def)
  then show ?thesis by (auto simp: hideBetween_def)
qed

lemma set_phase_skip: "set (phase_skip msgs arr p skip) = set skip \<union> set (phase_skip msgs arr p [])"
proof (cases "findPhaseIndices arr p")
  case (Pair s c)
  then show ?thesis
    by (cases s; cases c) (auto simp: phase_skip_def set_hideBetween)
qed

lemma set_fold_phase_skip:
  "set (fold (phase_skip msgs arr) ps skip) = set skip \<union> (\<Union>p\<in>set ps. set (phase_skip msgs arr p []))"
proof (induction ps arbitrary: skip)
  case Nil
  then show ?case by simp
next
  case (Cons p ps)
  show ?case using Cons[of "phase_skip msgs arr p skip"] set_phase_skip[of msgs arr p skip] by auto
qed

lemma set_skipIndices:
  "set (skipIndices jp msgs) =
     (\<Union>p\<in>set (completedPhases jp msgs). set (phase_skip msgs (phaseStatusArray jp msgs) p []))"
  by (simp add: skipIndices_def set_fold_phase_skip)

lemma psi_mem:
  "(i, d) \<in> set (phaseStatusIndices jp msgs) \<longleftrightarrow> i < length msgs \<and> phase_record_of jp (msgs ! i) = Some d"
  using psi_from_mem[of i d jp 0 msgs] by (simp add: phaseStatusIndices_def)

lemma record_at_iff:
  "phase_record_at jp msgs i p st \<longleftrightarrow>
     (\<exists>e\<in>set (phaseStatusIndices jp msgs). fst e = i \<and> status_match st p e)"
proof
  assume "phase_record_at jp msgs i p st"
  then obtain d where "i < length msgs" "phase_record_of jp (msgs ! i) = Some d"
      "strict_eq (pr_phase d) p" "pr_status d = JStr st"
    by (auto simp: phase_record_at_def split: option.splits)
  then have "(i, d) \<in> set (phaseStatusIndices jp msgs) \<and> status_match st p (i, d)"
    by (simp add: psi_mem status_match_def)
  then show "\<exists>e\<in>set (phaseStatusIndices jp msgs). fst e = i \<and> status_match st p e"
    by force
next
  assume "\<exists>e\<in>set (phaseStatusIndices jp msgs). fst e = i \<and> status_match st p e"
  then obtain d where "(i, d) \<in> set (phaseStatusIndices jp msgs)" "status_match st p (i, d)"
    by auto
  then show "phase_record_at jp msgs i p st"
    by (simp add: psi_mem phase_record_at_def status_match_def)
qed

lemma psi_sorted: "sorted_wrt (<) (map fst (phaseStatusIndices jp msgs))"
  by (simp add: phaseStatusIndices_def psi_from_sorted)

lemma strict_eq_imp_eq: "strict_eq a b \<Longrightarrow> a = b"
  by (cases a) auto

lemma set_phase_set_add: "set (phase_set_add p ps) = insert p (set ps)"
  by (auto simp: phase_set_add_def list_ex_iff dest: strict_eq_imp_eq)

lemma set_completed_fold:
  "set (fold (\<lambda>(i, d) acc. if pr_status d = JStr ''completed'' then phase_set_add (pr_phase d) acc else acc) xs acc)
     = set acc \<union> {pr_phase (snd e) |e. e \<in> set xs \<and> pr_status (snd e) = JStr ''completed''}"
proof (induction xs arbitrary: acc)
  case Nil
  then show ?case by simp
next
  case (Cons x xs)
  show ?case
    by (cases x) (auto simp: Cons set_phase_set_add)
qed

lemma set_completedPhases:
  "set (completedPhases jp msgs) =
     {pr_phase (snd e) |e. e \<in> set (phaseStatusIndices jp msgs) \<and> pr_status (snd e) = JStr ''completed''}"
  by (simp add: completedPhases_def set_completed_fold)

lemma completed_record_in_completedPhases:
  assumes "phase_record_at jp msgs j p ''completed''"
  shows "p \<in> set (completedPhases jp msgs)"
proof -
  from assms obtain e where e: "e \<in> set (phaseStatusIndices jp msgs)" "status_match ''completed'' p e"
    by (auto simp: record_at_iff)
  then have "pr_phase (snd e) = p" "pr_status (snd e) = JStr ''completed''"
    by (auto simp: status_match_def dest: strict_eq_imp_eq)
  with e(1) have "\<exists>e'. p = pr_phase (snd e') \<and> e' \<in> set (phaseStatusIndices jp msgs)
      \<and> pr_status (snd e') = JStr ''completed''"
    by blast
  then show ?thesis unfolding set_completedPhases mem_Collect_eq by blast
qed

lemma find_started_at:
  "(case fst (findPhaseIndices (phaseStatusArray jp msgs) p) of
      None \<Rightarrow> \<forall>i. \<not> phase_record_at jp msgs i p ''started''
    | Some i \<Rightarrow> phase_record_at jp msgs i p ''started''
                \<and> (\<forall>i'. phase_record_at jp msgs i' p ''started'' \<longrightarrow> i' \<le> i))"
  using find_started[OF psi_sorted, of jp msgs p]
  by (auto simp: phaseStatusArray_eq record_at_iff split: option.splits)

lemma find_completed_at:
  "(case snd (findPhaseIndices (phaseStatusArray jp msgs) p) of
      None \<Rightarrow> \<forall>i. \<not> phase_record_at jp msgs i p ''completed''
    | Some i \<Rightarrow> phase_record_at jp msgs i p ''completed''
                \<and> (\<forall>i'. phase_record_at jp msgs i' p ''completed'' \<longrightarrow> i' \<le> i))"
  using find_completed[OF psi_sorted, of jp msgs p]
  by (auto simp: phaseStatusArray_eq record_at_iff split: option.splits)

lemma phase_skip_unpaired:
  "fst (findPhaseIndices arr p) = None \<or> snd (findPhaseIndices arr p) = None \<Longrightarrow> phase_skip msgs arr p skip = skip"
  by (cases "findPhaseIndices arr p") (auto simp: phase_skip_def split: option.splits)


text \<open>
  Claim C1, as amended. The tracker resolves a phase by its \<open>completed\<close> records only
  (every phase with one is processed, and nothing enters the skip-set but through such a
  phase; an \<open>error\<close> record resolves nothing). For a phase \<open>p\<close> it pairs the latest
  \<open>started\<close> index of \<open>p\<close> with the latest \<open>completed\<close> index of \<open>p\<close>: \<open>s\<close> and \<open>c\<close>
  are those indices, \<open>None\<close> when \<open>p\<close> has no such record. A phase without a started
  record, or without a completed one, hides nothing.
\<close>

theorem phase_pairing:
  assumes "findPhaseIndices (phaseStatusArray jp msgs) p = (s, c)"
  shows "(case s of
            None \<Rightarrow> (\<forall>i. \<not> phase_record_at jp msgs i p ''started'')
          | Some i \<Rightarrow> phase_record_at jp msgs i p ''started''
                      \<and> (\<forall>i'. phase_record_at jp msgs i' p ''started'' \<longrightarrow> i' \<le> i))
       \<and> (case c of
            None \<Rightarrow> (\<forall>j. \<not> phase_record_at jp msgs j p ''completed'')
          | Some j \<Rightarrow> phase_record_at jp msgs j p ''completed''
                      \<and> (\<forall>j'. phase_record_at jp msgs j' p ''completed'' \<longrightarrow> j' \<le> j))
       \<and> (s = None \<or> c = None \<longrightarrow> phase_skip msgs (phaseStatusArray jp msgs) p skip = skip)
       \<and> ((\<exists>j. phase_record_at jp msgs j p ''completed'') \<longrightarrow> p \<in> set (completedPhases jp msgs))
       \<and> (\<forall>k\<in>set (skipIndices jp msgs). \<exists>q\<in>set (completedPhases jp msgs).
             k \<in> set (phase_skip msgs (phaseStatusArray jp msgs) q []))"
proof -
  have a: "(case s of
            None \<Rightarrow> (\<forall>i. \<not> phase_record_at jp msgs i p ''started'')
          | Some i \<Rightarrow> phase_record_at jp msgs i p ''started''
                      \<and> (\<forall>i'. phase_record_at jp msgs i' p ''started'' \<longrightarrow> i' \<le> i))"
    using find_started_at[of jp msgs p] assms by simp
  have b: "(case c of
            None \<Rightarrow> (\<forall>j. \<not> phase_record_at jp msgs j p ''completed'')
          | Some j \<Rightarrow> phase_record_at jp msgs j p ''completed''
                      \<and> (\<forall>j'. phase_record_at jp msgs j' p ''completed'' \<longrightarrow> j' \<le> j))"
    using find_completed_at[of jp msgs p] assms by simp
  have c: "s = None \<or> c = None \<longrightarrow> phase_skip msgs (phaseStatusArray jp msgs) p skip = skip"
    using phase_skip_unpaired[of "phaseStatusArray jp msgs" p msgs skip] assms by simp
  have d: "(\<exists>j. phase_record_at jp msgs j p ''completed'') \<longrightarrow> p \<in> set (completedPhases jp msgs)"
    using completed_record_in_completedPhases by blast
  have e: "\<forall>k\<in>set (skipIndices jp msgs). \<exists>q\<in>set (completedPhases jp msgs).
             k \<in> set (phase_skip msgs (phaseStatusArray jp msgs) q [])"
    by (simp add: set_skipIndices)
  from a b c d e show ?thesis by blast
qed

text \<open>The pairing on the list of Scenario A.\<close>

theorem phase_pairing_witness:
  "findPhaseIndices (phaseStatusArray demo_parse scenario_A) (JNum 1) = (Some 1, Some 3)
   \<and> phase_record_at demo_parse scenario_A 1 (JNum 1) ''started''
   \<and> phase_record_at demo_parse scenario_A 3 (JNum 1) ''completed''
   \<and> JNum 1 \<in> set (completedPhases demo_parse scenario_A)"
proof -
  have h: "findPhaseIndices (phaseStatusArray demo_parse scenario_A) (JNum 1) = (Some 1, Some 3)"
    by code_simp
  from phase_pairing[OF h, of "[]"] show ?thesis using h by auto
qed

text \<open>Against C1 as stated: phase 1 is started at 0 and again at 2; the pair is (2, 4), and the earliest started marker and the message after it stay visible.\<close>

theorem phase_pairing_counterexample:
  "phase_record_at demo_parse restarted_phase 0 (JNum 1) ''started''
   \<and> phase_record_at demo_parse restarted_phase 4 (JNum 1) ''completed''
   \<and> findPhaseIndices (phaseStatusArray demo_parse restarted_phase) (JNum 1) = (Some 2, Some 4)
   \<and> 0 \<notin> set (skipIndices demo_parse restarted_phase)
   \<and> 1 \<notin> set (skipIndices demo_parse restarted_phase)"
  by code_simp










lemma findIndex_None_iff: "findIndex P xs = None \<longleftrightarrow> (\<forall>x\<in>set xs. \<not> P x)"
  by (induction xs) auto

lemma findIndex_Some_iff:
  "findIndex P xs = Some n \<longleftrightarrow> n < length xs \<and> P (xs ! n) \<and> (\<forall>k<n. \<not> P (xs ! k))"
proof (induction xs arbitrary: n)
  case Nil
  then show ?case by simp
next
  case (Cons x xs)
  show ?case
  proof (cases "P x")
    case True
    then show ?thesis by (cases n) auto
  next
    case False
    show ?thesis
    proof (cases n)
      case 0
      then show ?thesis using False by auto
    next
      case (Suc m)
      have "(\<forall>k<Suc m. \<not> P ((x # xs) ! k)) \<longleftrightarrow> (\<forall>k<m. \<not> P (xs ! k))"
        using False by (auto simp: less_Suc_eq_0_disj)
      then show ?thesis using False Suc Cons[of m] by auto
    qed
  qed
qed

lemma findIndex_append:
  "findIndex P (xs @ ys) =
     (case findIndex P xs of Some n \<Rightarrow> Some n | None \<Rightarrow> map_option (\<lambda>k. length xs + k) (findIndex P ys))"
proof (induction xs)
  case Nil
  then show ?case by (cases "findIndex P ys") auto
next
  case (Cons x xs)
  then show ?case by (cases "findIndex P ys") (auto split: option.splits)
qed

lemma flat_apply:
  "flat_calls (applyToolResult r txt mm) =
     (case findIndex (\<lambda>tc. tc_id tc = r) (flat_calls mm) of
        None \<Rightarrow> flat_calls mm
      | Some n \<Rightarrow> (flat_calls mm)[n := complete_call txt (flat_calls mm ! n)])"
proof (induction mm)
  case Nil
  then show ?case by (simp add: flat_calls_def)
next
  case (Cons ke rest)
  let ?h = "e_toolCalls (snd ke)"
  have fl: "flat_calls (ke # rest) = ?h @ flat_calls rest" by (simp add: flat_calls_def)
  show ?case
  proof (cases "findIndex (\<lambda>tc. tc_id tc = r) ?h")
    case None
    then have "flat_calls (applyToolResult r txt (ke # rest)) = ?h @ flat_calls (applyToolResult r txt rest)"
      by (simp add: flat_calls_def)
    then show ?thesis using None Cons
      by (auto simp: fl findIndex_append list_update_append nth_append split: option.splits)
  next
    case (Some n)
    then have n: "n < length ?h" by (simp add: findIndex_Some_iff)
    have "flat_calls (applyToolResult r txt (ke # rest)) = ?h[n := complete_call txt (?h ! n)] @ flat_calls rest"
      using Some by (simp add: flat_calls_def)
    then show ?thesis using Some n
      by (simp add: fl findIndex_append list_update_append nth_append)
  qed
qed

lemma apply_no_match: "\<forall>tc\<in>set (flat_calls mm). tc_id tc \<noteq> r \<Longrightarrow> applyToolResult r txt mm = mm"
proof (induction mm)
  case Nil
  then show ?case by simp
next
  case (Cons ke rest)
  then have "findIndex (\<lambda>tc. tc_id tc = r) (e_toolCalls (snd ke)) = None"
    by (auto simp: findIndex_None_iff flat_calls_def)
  moreover have "applyToolResult r txt rest = rest"
    using Cons by (auto simp: flat_calls_def)
  ultimately show ?case by simp
qed

lemma applyToolResult_frame:
  "map fst (applyToolResult r txt mm) = map fst mm
   \<and> map (\<lambda>ke. e_message (snd ke)) (applyToolResult r txt mm) = map (\<lambda>ke. e_message (snd ke)) mm
   \<and> map (\<lambda>ke. length (e_toolCalls (snd ke))) (applyToolResult r txt mm)
       = map (\<lambda>ke. length (e_toolCalls (snd ke))) mm"
  by (induction mm) (auto split: option.splits)

text \<open>
  Claim C3, as amended. A tool result with reference \<open>r\<close> and text \<open>txt\<close> acts on the
  first derived tool call whose id is \<open>r\<close>, whatever its status: that call becomes
  \<open>Completed\<close> with result \<open>txt\<close>, and no other call changes. When no derived tool call
  has the id \<open>r\<close>, the message map is unchanged. In both cases the keys, the messages
  and the lengths of the tool-call lists stay as they were. A tool message without a
  reference, or with an empty one, changes nothing. The step is a total function:
  there is no error for it to raise.
\<close>

theorem tool_result_reconciliation:
  "(\<forall>n. n < length (flat_calls mm) \<and> tc_id (flat_calls mm ! n) = r
         \<and> (\<forall>k<n. tc_id (flat_calls mm ! k) \<noteq> r)
       \<longrightarrow> flat_calls (applyToolResult r txt mm)
             = (flat_calls mm)[n := (flat_calls mm ! n)\<lparr>tc_status := Completed, tc_result := Some txt\<rparr>])
   \<and> ((\<forall>tc\<in>set (flat_calls mm). tc_id tc \<noteq> r) \<longrightarrow> applyToolResult r txt mm = mm)
   \<and> map fst (applyToolResult r txt mm) = map fst mm
   \<and> map (\<lambda>ke. e_message (snd ke)) (applyToolResult r txt mm) = map (\<lambda>ke. e_message (snd ke)) mm
   \<and> map (\<lambda>ke. length (e_toolCalls (snd ke))) (applyToolResult r txt mm)
       = map (\<lambda>ke. length (e_toolCalls (snd ke))) mm
   \<and> (msg_type m = Tool \<and> i \<notin> set skip \<longrightarrow>
        process_message rnd interrupt skip i m mm =
          (case msg_tool_call_id m of
             None \<Rightarrow> mm
           | Some ref \<Rightarrow> if ref = [] then mm
                         else applyToolResult ref (extractStringFromMessageContent m) mm))"
proof -
  have a: "\<forall>n. n < length (flat_calls mm) \<and> tc_id (flat_calls mm ! n) = r
         \<and> (\<forall>k<n. tc_id (flat_calls mm ! k) \<noteq> r)
       \<longrightarrow> flat_calls (applyToolResult r txt mm)
             = (flat_calls mm)[n := (flat_calls mm ! n)\<lparr>tc_status := Completed, tc_result := Some txt\<rparr>]"
  proof (intro allI impI)
    fix n assume h: "n < length (flat_calls mm) \<and> tc_id (flat_calls mm ! n) = r
         \<and> (\<forall>k<n. tc_id (flat_calls mm ! k) \<noteq> r)"
    then have "findIndex (\<lambda>tc. tc_id tc = r) (flat_calls mm) = Some n"
      by (simp add: findIndex_Some_iff)
    then show "flat_calls (applyToolResult r txt mm)
             = (flat_calls mm)[n := (flat_calls mm ! n)\<lparr>tc_status := Completed, tc_result := Some txt\<rparr>]"
      by (simp add: flat_apply complete_call_def)
  qed
  have b: "(\<forall>tc\<in>set (flat_calls mm). tc_id tc \<noteq> r) \<longrightarrow> applyToolResult r txt mm = mm"
    using apply_no_match by blast
  have c: "msg_type m = Tool \<and> i \<notin> set skip \<longrightarrow>
        process_message rnd interrupt skip i m mm =
          (case msg_tool_call_id m of
             None \<Rightarrow> mm
           | Some ref \<Rightarrow> if ref = [] then mm
                         else applyToolResult ref (extractStringFromMessageContent m) mm)"
    by (simp add: process_message_def)
  from a b c applyToolResult_frame[of r _ mm] show ?thesis by blast
qed

text \<open>Scenarios B and C of the specification.\<close>

theorem tool_result_reconciliation_witness:
  "map tc_status (flat_calls (applyToolResult ''t1'' ''3 results'' call_issued)) = [Completed]
   \<and> map tc_result (flat_calls (applyToolResult ''t1'' ''3 results'' call_issued)) = [Some ''3 results'']
   \<and> applyToolResult ''tX'' ''late'' call_issued = call_issued"
proof -
  have f: "flat_calls call_issued = [\<lparr>tc_id = ''t1'', tc_name = ''search'', tc_args = JObj [],
                               tc_result = None, tc_status = Pending\<rparr>]"
    by code_simp
  have a: "flat_calls (applyToolResult ''t1'' ''3 results'' call_issued)
        = (flat_calls call_issued)[0 := (flat_calls call_issued ! 0)\<lparr>tc_status := Completed, tc_result := Some ''3 results''\<rparr>]"
    using tool_result_reconciliation[of call_issued "''t1''" "''3 results''"] by (simp add: f)
  have b: "applyToolResult ''tX'' ''late'' call_issued = call_issued"
    using tool_result_reconciliation[of call_issued "''tX''" "''late''"] by (simp add: f)
  show ?thesis using a b by (simp add: f)
qed

text \<open>Against C3 as stated: after the first result the only call with id t1 is completed, so the second result matches no open call; it still replaces the result.\<close>

theorem tool_result_reconciliation_counterexample:
  "map tc_status (flat_calls (messageMap demo_parse half False (take 2 duplicate_results))) = [Completed]
   \<and> map tc_result (flat_calls (messageMap demo_parse half False (take 2 duplicate_results))) = [Some ''first'']
   \<and> msg_tool_call_id (duplicate_results ! 2) = Some ''t1''
   \<and> map tc_result (flat_calls (process_message half False [] 2 (duplicate_results ! 2)
          (messageMap demo_parse half False (take 2 duplicate_results)))) = [Some ''second'']
   \<and> map (\<lambda>p. map tc_result (pm_toolCalls p)) (processedMessages demo_parse half False duplicate_results)
        = [[Some ''second'']]"
  by code_simp

lemma map_map_indexed: "(\<And>k x. g (f k x) = h x) \<Longrightarrow> map g (map_indexed f n xs) = map h xs"
  by (induction xs arbitrary: n) auto

lemma length_map_indexed: "length (map_indexed f n xs) = length xs"
  by (induction xs arbitrary: n) auto

text \<open>
  What the extraction computes, case by case. The invocations of an agent message come
  from one shape, the first that is present as an array, in the order: structured
  additional array, first-class array, content blocks. The first-class array loses its
  entries with an empty name, and of the content blocks the \<open>tool_use\<close> ones count.
  The name is the first non-empty of the function name, the name field and the type
  tag, else \<open>unknown\<close>; the arguments are the first truthy of \<open>function.arguments\<close>,
  \<open>args\<close> and \<open>input\<close>, else the empty object.
\<close>

lemma extraction_chain:
  "(\<forall>xs. msg_additional_tool_calls m = Some xs \<longrightarrow> toolCallsInMessage m = xs)
   \<and> (\<forall>ys. msg_additional_tool_calls m = None \<and> msg_tool_calls m = Some ys
         \<longrightarrow> toolCallsInMessage m = filter (\<lambda>t. item_name t \<noteq> Some []) ys)
   \<and> (\<forall>bs. msg_additional_tool_calls m = None \<and> msg_tool_calls m = None \<and> msg_content m = CBlocks bs
         \<longrightarrow> toolCallsInMessage m = filter (\<lambda>b. item_type b = Some ''tool_use'') bs)
   \<and> (msg_additional_tool_calls m = None \<and> msg_tool_calls m = None \<and> (\<forall>bs. msg_content m \<noteq> CBlocks bs)
         \<longrightarrow> toolCallsInMessage m = [])
   \<and> (\<forall>n. function_name t = Some n \<and> n \<noteq> [] \<longrightarrow> toolCallName t = n)
   \<and> (\<forall>n. \<not> str_truthy (function_name t) \<and> item_name t = Some n \<and> n \<noteq> [] \<longrightarrow> toolCallName t = n)
   \<and> (\<forall>n. \<not> str_truthy (function_name t) \<and> \<not> str_truthy (item_name t) \<and> item_type t = Some n \<and> n \<noteq> []
         \<longrightarrow> toolCallName t = n)
   \<and> (\<not> str_truthy (function_name t) \<and> \<not> str_truthy (item_name t) \<and> \<not> str_truthy (item_type t)
         \<longrightarrow> toolCallName t = ''unknown'')
   \<and> (truthy (function_arguments t) \<longrightarrow> toolCallArgs t = function_arguments t)
   \<and> (\<not> truthy (function_arguments t) \<and> truthy (item_args t) \<longrightarrow> toolCallArgs t = item_args t)
   \<and> (\<not> truthy (function_arguments t) \<and> \<not> truthy (item_args t) \<and> truthy (item_input t)
         \<longrightarrow> toolCallArgs t = item_input t)
   \<and> (\<not> truthy (function_arguments t) \<and> \<not> truthy (item_args t) \<and> \<not> truthy (item_input t)
         \<longrightarrow> toolCallArgs t = JObj [])
   \<and> map tc_name (toolCallsWithStatus rnd interrupt i m) = map toolCallName (toolCallsInMessage m)
   \<and> map tc_args (toolCallsWithStatus rnd interrupt i m) = map toolCallArgs (toolCallsInMessage m)"
proof -
  have shapes: "(\<forall>xs. msg_additional_tool_calls m = Some xs \<longrightarrow> toolCallsInMessage m = xs)
   \<and> (\<forall>ys. msg_additional_tool_calls m = None \<and> msg_tool_calls m = Some ys
         \<longrightarrow> toolCallsInMessage m = filter (\<lambda>t. item_name t \<noteq> Some []) ys)
   \<and> (\<forall>bs. msg_additional_tool_calls m = None \<and> msg_tool_calls m = None \<and> msg_content m = CBlocks bs
         \<longrightarrow> toolCallsInMessage m = filter (\<lambda>b. item_type b = Some ''tool_use'') bs)
   \<and> (msg_additional_tool_calls m = None \<and> msg_tool_calls m = None \<and> (\<forall>bs. msg_content m \<noteq> CBlocks bs)
         \<longrightarrow> toolCallsInMessage m = [])"
    by (auto simp: toolCallsInMessage_def split: content.splits)
  have names: "(\<forall>n. function_name t = Some n \<and> n \<noteq> [] \<longrightarrow> toolCallName t = n)
   \<and> (\<forall>n. \<not> str_truthy (function_name t) \<and> item_name t = Some n \<and> n \<noteq> [] \<longrightarrow> toolCallName t = n)
   \<and> (\<forall>n. \<not> str_truthy (function_name t) \<and> \<not> str_truthy (item_name t) \<and> item_type t = Some n \<and> n \<noteq> []
         \<longrightarrow> toolCallName t = n)
   \<and> (\<not> str_truthy (function_name t) \<and> \<not> str_truthy (item_name t) \<and> \<not> str_truthy (item_type t)
         \<longrightarrow> toolCallName t = ''unknown'')"
    by (auto simp: toolCallName_def str_or_def str_or_default_def str_truthy_def split: option.splits)
  have args: "(truthy (function_arguments t) \<longrightarrow> toolCallArgs t = function_arguments t)
   \<and> (\<not> truthy (function_arguments t) \<and> truthy (item_args t) \<longrightarrow> toolCallArgs t = item_args t)
   \<and> (\<not> truthy (function_arguments t) \<and> \<not> truthy (item_args t) \<and> truthy (item_input t)
         \<longrightarrow> toolCallArgs t = item_input t)
   \<and> (\<not> truthy (function_arguments t) \<and> \<not> truthy (item_args t) \<and> \<not> truthy (item_input t)
         \<longrightarrow> toolCallArgs t = JObj [])"
    by (simp add: toolCallArgs_def js_or_def)
  have derived: "map tc_name (toolCallsWithStatus rnd interrupt i m) = map toolCallName (toolCallsInMessage m)
   \<and> map tc_args (toolCallsWithStatus rnd interrupt i m) = map toolCallArgs (toolCallsInMessage m)"
    by (simp add: toolCallsWithStatus_def map_map_indexed toolCallWithStatus_def)
  show ?thesis
    by (insert shapes names args derived, elim conjE, intro conjI; assumption)
qed

text \<open>A first-class array with one named call and one call with an empty name.\<close>

lemma extraction_chain_example:
  "toolCallsInMessage (calling_message ''c0'' ''hi'' [named_call (Some ''t1'') ''search'', named_call None ''''])
     = [named_call (Some ''t1'') ''search'']
   \<and> toolCallName (named_call (Some ''t1'') ''search'') = ''search''
   \<and> toolCallArgs (named_call (Some ''t1'') ''search'') = JObj []"
proof -
  let ?m = "calling_message ''c0'' ''hi'' [named_call (Some ''t1'') ''search'', named_call None '''']"
  let ?t = "named_call (Some ''t1'') ''search''"
  have s: "msg_additional_tool_calls ?m = None
           \<and> msg_tool_calls ?m = Some [named_call (Some ''t1'') ''search'', named_call None '''']"
    by (simp add: calling_message_def)
  have f: "filter (\<lambda>t. item_name t \<noteq> Some []) [named_call (Some ''t1'') ''search'', named_call None '''']
           = [named_call (Some ''t1'') ''search'']"
    by (simp add: named_call_def)
  have n: "\<not> str_truthy (function_name ?t) \<and> item_name ?t = Some ''search''"
    by (simp add: named_call_def function_name_def str_truthy_def)
  have a: "truthy (function_arguments ?t) = False \<and> truthy (item_args ?t) \<and> item_args ?t = JObj []"
    by (simp add: named_call_def function_arguments_def)
  from extraction_chain[of ?m ?t half False 0] show ?thesis
    using s f n a by simp
qed

text \<open>
  Claim C4: the invocations of an agent message come from the first non-empty of the
  three shapes. The code misses it where an earlier shape is present and empty: the
  chain takes the first shape that is present as an array, whereas \<open>hasToolCalls\<close>, the
  test of the same three shapes in the phase pass, asks each array for an element. At
  the message below the structured array is empty and the other two shapes hold a
  call: \<open>hasToolCalls\<close> finds tool calls, the chain extracts none, and the derived
  message carries no tool call.
\<close>

theorem tool_call_extraction_failing_input:
  "msg_additional_tool_calls empty_additional = Some []
   \<and> msg_tool_calls empty_additional = Some [named_call (Some ''t1'') ''search'']
   \<and> (\<exists>b bs. msg_content empty_additional = CBlocks (b # bs) \<and> item_type b = Some ''tool_use'')
   \<and> hasToolCalls empty_additional
   \<and> toolCallsInMessage empty_additional = []
   \<and> map pm_toolCalls (processedMessages demo_parse half False [empty_additional]) = [[]]"
proof -
  have a: "msg_additional_tool_calls empty_additional = Some []
   \<and> msg_tool_calls empty_additional = Some [named_call (Some ''t1'') ''search'']
   \<and> (\<exists>b bs. msg_content empty_additional = CBlocks (b # bs) \<and> item_type b = Some ''tool_use'')
   \<and> hasToolCalls empty_additional
   \<and> toolCallsInMessage empty_additional = []"
    by (simp add: empty_additional_def toolCallsInMessage_def hasToolCalls_def)
  have b: "map pm_toolCalls (processedMessages demo_parse half False [empty_additional]) = [[]]"
    by code_simp
  show ?thesis
    by (insert a b, elim conjE, intro conjI; assumption)
qed

lemma truthy_not_empty: "truthy v \<Longrightarrow> v \<noteq> JStr [] \<and> v \<noteq> JNull"
  by (cases v) auto

text \<open>
  Claim C9, as amended. The sub-agents are, in order, the tool calls named \<open>task\<close>
  whose \<open>subagent_type\<close> argument is truthy (for a string: present and not empty; a
  missing or \<open>null\<close> one is left out), each projected to its id, the target, its
  arguments as input, its status, and its result as output when that result is a
  non-empty string: a call whose result is the empty string has no output. The
  projection is a function of the tool-call list alone.
\<close>

theorem sub_agent_projection:
  "map sa_id (subAgents tcs)
     = map tc_id (filter (\<lambda>tc. tc_name tc = ''task'' \<and> truthy (js_prop (tc_args tc) ''subagent_type'')) tcs)
   \<and> map sa_subAgentName (subAgents tcs)
     = map (\<lambda>tc. js_prop (tc_args tc) ''subagent_type'')
         (filter (\<lambda>tc. tc_name tc = ''task'' \<and> truthy (js_prop (tc_args tc) ''subagent_type'')) tcs)
   \<and> map sa_input (subAgents tcs)
     = map tc_args (filter (\<lambda>tc. tc_name tc = ''task'' \<and> truthy (js_prop (tc_args tc) ''subagent_type'')) tcs)
   \<and> map sa_output (subAgents tcs)
     = map (\<lambda>tc. if tc_result tc = Some [] then None else tc_result tc)
         (filter (\<lambda>tc. tc_name tc = ''task'' \<and> truthy (js_prop (tc_args tc) ''subagent_type'')) tcs)
   \<and> map sa_status (subAgents tcs)
     = map tc_status (filter (\<lambda>tc. tc_name tc = ''task'' \<and> truthy (js_prop (tc_args tc) ''subagent_type'')) tcs)
   \<and> (\<forall>tc s. js_prop (tc_args tc) ''subagent_type'' = JStr s
        \<longrightarrow> (is_delegation tc \<longleftrightarrow> tc_name tc = ''task'' \<and> s \<noteq> []))
   \<and> (\<forall>tc. js_prop (tc_args tc) ''subagent_type'' = JUndefined \<or> js_prop (tc_args tc) ''subagent_type'' = JNull
        \<longrightarrow> \<not> is_delegation tc)"
proof -
  have d1: "\<And>tc. is_delegation tc = (tc_name tc = ''task'' \<and> truthy (js_prop (tc_args tc) ''subagent_type''))"
    using truthy_not_empty by (auto simp: is_delegation_def)
  then have d: "is_delegation = (\<lambda>tc. tc_name tc = ''task'' \<and> truthy (js_prop (tc_args tc) ''subagent_type''))"
    by (simp add: fun_eq_iff)
  have o: "\<And>tc. sa_output (to_sub_agent tc) = (if tc_result tc = Some [] then None else tc_result tc)"
    by (auto simp: to_sub_agent_def split: option.splits)
  have l: "\<forall>tc s. js_prop (tc_args tc) ''subagent_type'' = JStr s
        \<longrightarrow> (is_delegation tc \<longleftrightarrow> tc_name tc = ''task'' \<and> s \<noteq> [])"
    by (simp add: d1)
  have n: "\<forall>tc. js_prop (tc_args tc) ''subagent_type'' = JUndefined \<or> js_prop (tc_args tc) ''subagent_type'' = JNull
        \<longrightarrow> \<not> is_delegation tc"
    by (auto simp: d1)
  have m: "map sa_id (subAgents tcs) = map tc_id (filter is_delegation tcs)"
       "map sa_subAgentName (subAgents tcs) = map (\<lambda>tc. js_prop (tc_args tc) ''subagent_type'') (filter is_delegation tcs)"
       "map sa_input (subAgents tcs) = map tc_args (filter is_delegation tcs)"
       "map sa_output (subAgents tcs) = map (\<lambda>tc. if tc_result tc = Some [] then None else tc_result tc) (filter is_delegation tcs)"
       "map sa_status (subAgents tcs) = map tc_status (filter is_delegation tcs)"
    by (simp_all add: subAgents_def o comp_def) (simp_all add: to_sub_agent_def)
  show ?thesis
    by (insert m[unfolded d] l n, intro conjI; assumption)
qed

text \<open>Three delegation calls: one with a target, one with an empty target, one with none.\<close>

theorem sub_agent_projection_witness:
  "map sa_id (subAgents [task_call ''s1'' (JStr ''research'') (Some ''done'') Completed,
                         task_call ''s2'' (JStr []) None Pending,
                         task_call ''s3'' JNull None Pending]) = [''s1'']
   \<and> map sa_output (subAgents [task_call ''s1'' (JStr ''research'') (Some ''done'') Completed,
                         task_call ''s2'' (JStr []) None Pending,
                         task_call ''s3'' JNull None Pending]) = [Some ''done'']
   \<and> is_delegation (task_call ''s1'' (JStr ''research'') (Some ''done'') Completed)
   \<and> \<not> is_delegation (task_call ''s3'' JNull None Pending)"
proof -
  let ?tcs = "[task_call ''s1'' (JStr ''research'') (Some ''done'') Completed,
               task_call ''s2'' (JStr []) None Pending,
               task_call ''s3'' JNull None Pending]"
  have p1: "js_prop (tc_args (task_call ''s1'' (JStr ''research'') (Some ''done'') Completed)) ''subagent_type''
            = JStr ''research''"
    by (simp add: task_call_def)
  have p3: "js_prop (tc_args (task_call ''s3'' JNull None Pending)) ''subagent_type'' = JNull"
    by (simp add: task_call_def)
  have n: "tc_name (task_call ''s1'' (JStr ''research'') (Some ''done'') Completed) = ''task''"
    by (simp add: task_call_def)
  from sub_agent_projection[of ?tcs] have
    "map sa_id (subAgents ?tcs) = [''s1'']" and "map sa_output (subAgents ?tcs) = [Some ''done'']"
    and "is_delegation (task_call ''s1'' (JStr ''research'') (Some ''done'') Completed)"
    and "\<not> is_delegation (task_call ''s3'' JNull None Pending)"
    using p1 p3 n by (simp_all add: task_call_def)
  then show ?thesis by simp
qed

text \<open>Against C9 as stated: the call carries a result, the empty string, and its sub-agent has no output.\<close>

theorem sub_agent_projection_counterexample:
  "is_delegation (task_call ''s1'' (JStr ''research'') (Some []) Completed)
   \<and> tc_result (task_call ''s1'' (JStr ''research'') (Some []) Completed) = Some []
   \<and> map sa_output (subAgents [task_call ''s1'' (JStr ''research'') (Some []) Completed]) = [None]"
  by (simp add: subAgents_def is_delegation_def to_sub_agent_def task_call_def)

lemma search_started_Some:
  "search_started jp ps all j = Some i \<longleftrightarrow>
     i < j \<and> is_started_of jp ps (all ! i) \<and> (\<forall>k. i < k \<and> k < j \<longrightarrow> \<not> is_started_of jp ps (all ! k))"
proof (induction j)
  case 0
  then show ?case by simp
next
  case (Suc j)
  show ?case
  proof (cases "is_started_of jp ps (all ! j)")
    case True
    have "i < Suc j \<and> is_started_of jp ps (all ! i) \<and> (\<forall>k. i < k \<and> k < Suc j \<longrightarrow> \<not> is_started_of jp ps (all ! k))
          \<longleftrightarrow> i = j"
      using True by (metis less_Suc_eq linorder_neqE_nat not_less_eq)
    then show ?thesis using True by auto
  next
    case False
    have "(\<forall>k. i < k \<and> k < Suc j \<longrightarrow> \<not> is_started_of jp ps (all ! k))
          \<longleftrightarrow> (\<forall>k. i < k \<and> k < j \<longrightarrow> \<not> is_started_of jp ps (all ! k))"
      using False by (metis less_Suc_eq)
    moreover have "i < Suc j \<and> is_started_of jp ps (all ! i) \<longleftrightarrow> i < j \<and> is_started_of jp ps (all ! i)"
      using False by (metis less_Suc_eq)
    ultimately show ?thesis using False Suc by auto
  qed
qed

lemma fold_detail_step:
  "fold (detail_step jp all) ks acc =
     acc @ map (\<lambda>k. extractStringFromMessageContent (all ! k)) (filter (\<lambda>k. detail_text jp (all ! k)) ks)"
  by (induction ks arbitrary: acc) (auto simp: detail_step_def detail_text_def Let_def)

lemma phaseDetails_closed_form:
  assumes "findIndex (\<lambda>x. msg_id x = msg_id m) all = Some j"
    and "truthy (phaseStatus jp m)"
    and "js_prop (phaseStatus jp m) ''status'' = JStr ''completed''"
    and "i < j" and "is_started_of jp (phaseStatus jp m) (all ! i)"
    and "\<forall>k. i < k \<and> k < j \<longrightarrow> \<not> is_started_of jp (phaseStatus jp m) (all ! k)"
  shows "phaseDetails jp all m =
           (let texts = map (\<lambda>k. extractStringFromMessageContent (all ! k))
                          (filter (\<lambda>k. detail_text jp (all ! k)) [Suc i..<j])
            in if texts = [] then None else Some (join_with [CHR 0x0A, CHR 0x0A] texts))"
proof -
  have ne: "all \<noteq> []" using assms(1) by (cases all) auto
  have s: "search_started jp (phaseStatus jp m) all j = Some i"
    using assms(4,5,6) by (simp add: search_started_Some)
  show ?thesis
    using assms(1,2,3) ne s by (simp add: phaseDetails_def Let_def fold_detail_step)
qed

lemma phaseDetails_unpaired:
  assumes "findIndex (\<lambda>x. msg_id x = msg_id m) all = Some j"
    and "\<forall>k<j. \<not> is_started_of jp (phaseStatus jp m) (all ! k)"
  shows "phaseDetails jp all m = None"
proof -
  have "search_started jp (phaseStatus jp m) all j = None"
  proof (cases "search_started jp (phaseStatus jp m) all j")
    case None
    then show ?thesis .
  next
    case (Some i)
    then show ?thesis using assms(2) by (auto simp: search_started_Some)
  qed
  then show ?thesis using assms(1) by (simp add: phaseDetails_def Let_def)
qed

text \<open>
  Claim C6, as amended. Let \<open>m\<close> be a completed phase marker standing at index \<open>j\<close>
  of the list, and let \<open>i\<close> be the nearest index before \<open>j\<close> that holds a started
  marker of the same phase. The detail view of \<open>m\<close> is the normalized text of the
  agent messages strictly between \<open>i\<close> and \<open>j\<close> whose text is not blank and is no phase
  marker, hidden or not, in stream order and joined by a blank line; it is absent when
  there is no such message. For the list of Scenario A the visible messages are the
  human message and the completed marker of phase 1, which renders as a phase row, and
  the detail of phase 1 is \<open>working...\<close>.
\<close>

theorem phase_detail_view:
  "(\<forall>i j. findIndex (\<lambda>x. msg_id x = msg_id m) all = Some j
        \<and> truthy (phaseStatus jp m) \<and> js_prop (phaseStatus jp m) ''status'' = JStr ''completed''
        \<and> i < j \<and> is_started_of jp (phaseStatus jp m) (all ! i)
        \<and> (\<forall>k. i < k \<and> k < j \<longrightarrow> \<not> is_started_of jp (phaseStatus jp m) (all ! k))
      \<longrightarrow> phaseDetails jp all m =
           (let texts = map (\<lambda>k. extractStringFromMessageContent (all ! k))
                          (filter (\<lambda>k. detail_text jp (all ! k)) [Suc i..<j])
            in if texts = [] then None else Some (join_with [CHR 0x0A, CHR 0x0A] texts)))
   \<and> map pm_message (processedMessages demo_parse rnd interrupt scenario_A) = [scenario_A ! 0, scenario_A ! 3]
   \<and> truthy (phaseStatus demo_parse (scenario_A ! 3))
   \<and> phaseDetails demo_parse scenario_A (scenario_A ! 3) = Some ''working...''"
proof -
  have g: "\<forall>i j. findIndex (\<lambda>x. msg_id x = msg_id m) all = Some j
        \<and> truthy (phaseStatus jp m) \<and> js_prop (phaseStatus jp m) ''status'' = JStr ''completed''
        \<and> i < j \<and> is_started_of jp (phaseStatus jp m) (all ! i)
        \<and> (\<forall>k. i < k \<and> k < j \<longrightarrow> \<not> is_started_of jp (phaseStatus jp m) (all ! k))
      \<longrightarrow> phaseDetails jp all m =
           (let texts = map (\<lambda>k. extractStringFromMessageContent (all ! k))
                          (filter (\<lambda>k. detail_text jp (all ! k)) [Suc i..<j])
            in if texts = [] then None else Some (join_with [CHR 0x0A, CHR 0x0A] texts))"
    using phaseDetails_closed_form by blast
  have sk: "skipIndices demo_parse scenario_A = [2, 1]" by code_simp
  have pf: "map (\<lambda>ke. e_message (snd ke)) (process_from rnd interrupt [2, 1] 0 scenario_A [])
             = [scenario_A ! 0, scenario_A ! 3]"
    by (simp add: scenario_A_def process_message_def text_message_def)
  have av: "\<And>prev es. map pm_message (with_avatar prev es) = map e_message es"
  proof -
    fix prev es show "map pm_message (with_avatar prev es) = map e_message es"
      by (induction es arbitrary: prev) simp_all
  qed
  have a: "map pm_message (processedMessages demo_parse rnd interrupt scenario_A) = [scenario_A ! 0, scenario_A ! 3]"
    using pf by (simp add: processedMessages_def messageMap_def sk av comp_def)
  have b: "truthy (phaseStatus demo_parse (scenario_A ! 3))" by code_simp
  have c: "phaseDetails demo_parse scenario_A (scenario_A ! 3) = Some ''working...''" by code_simp
  show ?thesis
    by (insert g a b c, intro conjI; assumption)
qed

text \<open>The general part on the list of Scenario A.\<close>

theorem phase_detail_view_witness:
  "findIndex (\<lambda>x. msg_id x = msg_id (scenario_A ! 3)) scenario_A = Some 3
   \<and> js_prop (phaseStatus demo_parse (scenario_A ! 3)) ''status'' = JStr ''completed''
   \<and> is_started_of demo_parse (phaseStatus demo_parse (scenario_A ! 3)) (scenario_A ! 1)
   \<and> filter (\<lambda>k. detail_text demo_parse (scenario_A ! k)) [Suc 1..<3] = [2]
   \<and> phaseDetails demo_parse scenario_A (scenario_A ! 3)
       = Some (extractStringFromMessageContent (scenario_A ! 2))"
proof -
  have h1: "findIndex (\<lambda>x. msg_id x = msg_id (scenario_A ! 3)) scenario_A = Some 3" by code_simp
  have h2: "truthy (phaseStatus demo_parse (scenario_A ! 3))" by code_simp
  have h3: "js_prop (phaseStatus demo_parse (scenario_A ! 3)) ''status'' = JStr ''completed''" by code_simp
  have l: "(1::nat) < 3" by simp
  have h4: "is_started_of demo_parse (phaseStatus demo_parse (scenario_A ! 3)) (scenario_A ! 1)" by code_simp
  have h5: "\<forall>k. 1 < k \<and> k < 3 \<longrightarrow> \<not> is_started_of demo_parse (phaseStatus demo_parse (scenario_A ! 3)) (scenario_A ! k)"
  proof (intro allI impI)
    fix k :: nat assume "1 < k \<and> k < 3"
    then have "k = 2" by simp
    moreover have "\<not> is_started_of demo_parse (phaseStatus demo_parse (scenario_A ! 3)) (scenario_A ! 2)"
      by code_simp
    ultimately show "\<not> is_started_of demo_parse (phaseStatus demo_parse (scenario_A ! 3)) (scenario_A ! k)"
      by simp
  qed
  have f: "filter (\<lambda>k. detail_text demo_parse (scenario_A ! k)) [Suc 1..<3] = [2]" by code_simp
  have "phaseDetails demo_parse scenario_A (scenario_A ! 3) =
           (let texts = map (\<lambda>k. extractStringFromMessageContent (scenario_A ! k))
                          (filter (\<lambda>k. detail_text demo_parse (scenario_A ! k)) [Suc 1..<3])
            in if texts = [] then None else Some (join_with [CHR 0x0A, CHR 0x0A] texts))"
    using phase_detail_view[of "scenario_A ! 3" scenario_A demo_parse] h1 h2 h3 l h4 h5 by blast
  then have "phaseDetails demo_parse scenario_A (scenario_A ! 3)
       = Some (extractStringFromMessageContent (scenario_A ! 2))"
    by (simp only: f Let_def list.map join_with.simps list.distinct if_False)
  then show ?thesis using h1 h3 h4 f by simp
qed

text \<open>Against C6 as stated: the message with the tool call is visible, and its text is part of the detail.\<close>

theorem phase_detail_view_counterexample:
  "findPhaseIndices (phaseStatusArray demo_parse phase_with_tool) (JNum 1) = (Some 0, Some 4)
   \<and> 1 \<notin> set (skipIndices demo_parse phase_with_tool)
   \<and> 3 \<in> set (skipIndices demo_parse phase_with_tool)
   \<and> extractStringFromMessageContent (phase_with_tool ! 1) = ''Searching''
   \<and> extractStringFromMessageContent (phase_with_tool ! 3) = ''notes''
   \<and> phaseDetails demo_parse phase_with_tool (phase_with_tool ! 4)
       = Some (''Searching'' @ [CHR 0x0A, CHR 0x0A] @ ''notes'')"
  by code_simp

lemma sim_map_indexed:
  "(\<And>k x. R (f k x) (g k x)) \<Longrightarrow> list_all2 R (map_indexed f n xs) (map_indexed g n xs)"
  by (induction xs arbitrary: n) auto

lemma sim_new_calls:
  "list_all2 (tc_sim (generated rnd1 rnd2)) (toolCallsWithStatus rnd1 interrupt i m) (toolCallsWithStatus rnd2 interrupt i m)"
  unfolding toolCallsWithStatus_def
proof (rule sim_map_indexed)
  fix k x
  show "tc_sim (generated rnd1 rnd2) (toolCallWithStatus rnd1 interrupt i k x) (toolCallWithStatus rnd2 interrupt i k x)"
    by (auto simp: tc_sim_def call_view_def toolCallWithStatus_def toolCallId_def str_or_default_def
        generated_def split: option.splits)
qed

lemma sim_update:
  "list_all2 (e_sim G) mm1 mm2 \<Longrightarrow> e_sim G (k, e1) (k, e2) \<Longrightarrow>
     list_all2 (e_sim G) (AList.update k e1 mm1) (AList.update k e2 mm2)"
proof (induction mm1 mm2 rule: list_all2_induct)
  case Nil
  then show ?case by simp
next
  case (Cons x xs y ys)
  then show ?case by (auto simp: e_sim_def)
qed

lemma sim_findIndex:
  "list_all2 (tc_sim G) xs ys \<Longrightarrow> r \<notin> G \<Longrightarrow>
     findIndex (\<lambda>tc. tc_id tc = r) xs = findIndex (\<lambda>tc. tc_id tc = r) ys"
proof (induction xs ys rule: list_all2_induct)
  case Nil
  then show ?case by simp
next
  case (Cons x xs y ys)
  then have "tc_id x = r \<longleftrightarrow> tc_id y = r" by (auto simp: tc_sim_def)
  then show ?case using Cons by simp
qed

lemma sim_complete: "tc_sim G a b \<Longrightarrow> tc_sim G (complete_call t a) (complete_call t b)"
  by (auto simp: tc_sim_def call_view_def complete_call_def)

lemma sim_apply:
  "list_all2 (e_sim G) mm1 mm2 \<Longrightarrow> r \<notin> G \<Longrightarrow>
     list_all2 (e_sim G) (applyToolResult r t mm1) (applyToolResult r t mm2)"
proof (induction mm1 mm2 rule: list_all2_induct)
  case Nil
  then show ?case by simp
next
  case (Cons x xs y ys)
  have calls: "list_all2 (tc_sim G) (e_toolCalls (snd x)) (e_toolCalls (snd y))"
    and eq: "fst x = fst y" "e_message (snd x) = e_message (snd y)"
    using Cons.hyps(1) by (auto simp: e_sim_def)
  have fi: "findIndex (\<lambda>tc. tc_id tc = r) (e_toolCalls (snd x)) = findIndex (\<lambda>tc. tc_id tc = r) (e_toolCalls (snd y))"
    using sim_findIndex[OF calls Cons.prems] .
  show ?case
  proof (cases "findIndex (\<lambda>tc. tc_id tc = r) (e_toolCalls (snd x))")
    case None
    then show ?thesis using fi Cons by simp
  next
    case (Some n)
    have "list_all2 (tc_sim G)
            ((e_toolCalls (snd x))[n := complete_call t (e_toolCalls (snd x) ! n)])
            ((e_toolCalls (snd y))[n := complete_call t (e_toolCalls (snd y) ! n)])"
    proof (rule list_all2_update_cong[OF calls])
      have "n < length (e_toolCalls (snd x))" using Some by (simp add: findIndex_Some_iff)
      then show "tc_sim G (complete_call t (e_toolCalls (snd x) ! n)) (complete_call t (e_toolCalls (snd y) ! n))"
        using calls sim_complete by (auto simp: list_all2_conv_all_nth)
    qed
    then show ?thesis using Some fi[symmetric] Cons.hyps(2) eq
      by (simp add: e_sim_def)
  qed
qed

lemma sim_process_message:
  assumes "list_all2 (e_sim (generated rnd1 rnd2)) mm1 mm2"
    and "\<forall>i k. msg_tool_call_id m \<noteq> Some (''tool-'' @ rnd1 i k)"
    and "\<forall>i k. msg_tool_call_id m \<noteq> Some (''tool-'' @ rnd2 i k)"
  shows "list_all2 (e_sim (generated rnd1 rnd2))
           (process_message rnd1 interrupt skip i m mm1) (process_message rnd2 interrupt skip i m mm2)"
proof -
  let ?G = "generated rnd1 rnd2"
  have ai: "list_all2 (e_sim ?G)
       (AList.update (msg_id m) \<lparr>e_message = m, e_toolCalls = toolCallsWithStatus rnd1 interrupt i m\<rparr> mm1)
       (AList.update (msg_id m) \<lparr>e_message = m, e_toolCalls = toolCallsWithStatus rnd2 interrupt i m\<rparr> mm2)"
    by (rule sim_update[OF assms(1)]) (simp add: e_sim_def sim_new_calls)
  have hu: "list_all2 (e_sim ?G)
       (AList.update (msg_id m) \<lparr>e_message = m, e_toolCalls = []\<rparr> mm1)
       (AList.update (msg_id m) \<lparr>e_message = m, e_toolCalls = []\<rparr> mm2)"
    by (rule sim_update[OF assms(1)]) (simp add: e_sim_def)
  have tl: "\<And>r. msg_tool_call_id m = Some r \<Longrightarrow>
       list_all2 (e_sim ?G) (applyToolResult r (extractStringFromMessageContent m) mm1)
         (applyToolResult r (extractStringFromMessageContent m) mm2)"
  proof -
    fix r assume r: "msg_tool_call_id m = Some r"
    have "r \<notin> ?G" using assms(2,3) r by (auto simp: generated_def)
    then show "list_all2 (e_sim ?G) (applyToolResult r (extractStringFromMessageContent m) mm1)
         (applyToolResult r (extractStringFromMessageContent m) mm2)"
      using sim_apply assms(1) by blast
  qed
  show ?thesis
    using ai hu tl assms(1) by (auto simp: process_message_def split: option.splits)
qed

lemma sim_process_from:
  assumes "list_all2 (e_sim (generated rnd1 rnd2)) mm1 mm2"
    and "fresh_ids rnd1 ms" and "fresh_ids rnd2 ms"
  shows "list_all2 (e_sim (generated rnd1 rnd2))
           (process_from rnd1 interrupt skip i ms mm1) (process_from rnd2 interrupt skip i ms mm2)"
  using assms
proof (induction ms arbitrary: i mm1 mm2)
  case Nil
  then show ?case by simp
next
  case (Cons m ms)
  have step: "list_all2 (e_sim (generated rnd1 rnd2))
           (process_message rnd1 interrupt skip i m mm1) (process_message rnd2 interrupt skip i m mm2)"
    using Cons.prems by (intro sim_process_message) (auto simp: fresh_ids_def)
  have "fresh_ids rnd1 ms" "fresh_ids rnd2 ms" using Cons.prems by (auto simp: fresh_ids_def)
  then show ?case using Cons.IH[OF step] by simp
qed

lemma sim_with_avatar:
  "list_all2 (\<lambda>a b. e_message a = e_message b \<and> list_all2 (tc_sim G) (e_toolCalls a) (e_toolCalls b)) es1 es2
   \<Longrightarrow> map derived_view (with_avatar prev es1) = map derived_view (with_avatar prev es2)"
proof (induction es1 es2 arbitrary: prev rule: list_all2_induct)
  case Nil
  then show ?case by simp
next
  case (Cons x xs y ys)
  have "map call_view (e_toolCalls x) = map call_view (e_toolCalls y)"
    using Cons.hyps(1) by (auto simp: list_all2_conv_all_nth tc_sim_def intro: nth_equalityI)
  then show ?case using Cons by (simp add: derived_view_def)
qed

lemma status_monotone:
  assumes "n < length xs" "tc_status (xs ! n) = Completed"
  shows "tc_status ((xs[k := complete_call t (xs ! k)]) ! n) = Completed"
  using assms by (cases "k = n") (simp_all add: complete_call_def)

lemma apply_status_monotone:
  assumes "n < length (flat_calls mm)" "tc_status (flat_calls mm ! n) = Completed"
  shows "tc_status (flat_calls (applyToolResult r t mm) ! n) = Completed"
proof (cases "findIndex (\<lambda>tc. tc_id tc = r) (flat_calls mm)")
  case None
  then show ?thesis using assms by (simp add: flat_apply)
next
  case (Some k)
  then show ?thesis using status_monotone[OF assms] by (simp add: flat_apply)
qed

lemma derived_views_agree:
  assumes "fresh_ids rnd1 msgs" and "fresh_ids rnd2 msgs"
  shows "map derived_view (processedMessages jp rnd1 interrupt msgs)
           = map derived_view (processedMessages jp rnd2 interrupt msgs)"
proof -
  have "list_all2 (e_sim (generated rnd1 rnd2)) (messageMap jp rnd1 interrupt msgs) (messageMap jp rnd2 interrupt msgs)"
    unfolding messageMap_def using assms by (intro sim_process_from) simp_all
  then have "list_all2 (\<lambda>a b. e_message a = e_message b
               \<and> list_all2 (tc_sim (generated rnd1 rnd2)) (e_toolCalls a) (e_toolCalls b))
           (map snd (messageMap jp rnd1 interrupt msgs)) (map snd (messageMap jp rnd2 interrupt msgs))"
    by (simp add: list_all2_conv_all_nth e_sim_def)
  then show ?thesis unfolding processedMessages_def by (rule sim_with_avatar)
qed

text \<open>
  Claim C5. Deriving twice from the same message list and the same interrupt state
  gives the same messages, the same avatar flags and, for every message, tool calls
  with the same names, arguments, results and statuses. The two runs differ in nothing
  but the numbers \<open>Math.random\<close> draws for tool calls that came without an id, taken
  here as two random sources whose ids no tool result of the list refers to. The
  skip-set is \<open>skipIndices jp msgs\<close> in both runs: it takes neither the interrupt
  state nor the random source. A tool-result step never takes a tool call out of
  \<open>Completed\<close>.
\<close>

theorem derivation_repeatable:
  assumes "fresh_ids rnd1 msgs" and "fresh_ids rnd2 msgs"
  shows "map derived_view (processedMessages jp rnd1 interrupt msgs)
           = map derived_view (processedMessages jp rnd2 interrupt msgs)
       \<and> (\<forall>r t mm n. n < length (flat_calls mm) \<and> tc_status (flat_calls mm ! n) = Completed
             \<longrightarrow> tc_status (flat_calls (applyToolResult r t mm) ! n) = Completed)"
  using derived_views_agree[OF assms] apply_status_monotone by blast

text \<open>Two derivations that draw different ids for the call without one.\<close>

theorem derivation_repeatable_witness:
  "fresh_ids half unnamed_call_list \<and> fresh_ids quarter unnamed_call_list
   \<and> map derived_view (processedMessages demo_parse half True unnamed_call_list)
       = map derived_view (processedMessages demo_parse quarter True unnamed_call_list)
   \<and> map (\<lambda>p. map tc_id (pm_toolCalls p)) (processedMessages demo_parse half True unnamed_call_list)
       = [[], [''tool-0.5'', ''t2'']]
   \<and> map (\<lambda>p. map tc_id (pm_toolCalls p)) (processedMessages demo_parse quarter True unnamed_call_list)
       = [[], [''tool-0.25'', ''t2'']]"
proof -
  have a: "fresh_ids half unnamed_call_list"
    by (simp add: fresh_ids_def unnamed_call_list_def half_def text_message_def calling_message_def
        tool_result_message_def)
  have b: "fresh_ids quarter unnamed_call_list"
    by (simp add: fresh_ids_def unnamed_call_list_def quarter_def text_message_def calling_message_def
        tool_result_message_def)
  have c: "map (\<lambda>p. map tc_id (pm_toolCalls p)) (processedMessages demo_parse half True unnamed_call_list)
       = [[], [''tool-0.5'', ''t2'']]"
    by code_simp
  have d: "map (\<lambda>p. map tc_id (pm_toolCalls p)) (processedMessages demo_parse quarter True unnamed_call_list)
       = [[], [''tool-0.25'', ''t2'']]"
    by code_simp
  from derivation_repeatable[OF a b, of demo_parse True] show ?thesis
    using a b c d by simp
qed

lemma fold_delete_take:
  "distinct (map fst m) \<Longrightarrow> fold AList.delete (take k (map fst m)) m = drop k m"
proof (induction m arbitrary: k)
  case Nil
  then show ?case by simp
next
  case (Cons x rest)
  show ?case
  proof (cases k)
    case 0
    then show ?thesis by simp
  next
    case (Suc k')
    have "fst x \<notin> fst ` set rest" using Cons.prems by auto
    then have "AList.delete (fst x) (x # rest) = rest"
      by (cases x) (simp add: AList.delete_id)
    then show ?thesis using Suc Cons by simp
  qed
qed

lemma update_fresh: "k \<notin> fst ` set m \<Longrightarrow> AList.update k v m = m @ [(k, v)]"
  by (induction m) auto

lemma length_update_present: "k \<in> fst ` set m \<Longrightarrow> length (AList.update k v m) = length m"
  by (induction m) auto

lemma own_properties_plain:
  assumes "\<forall>k\<in>set (map fst obj). array_index k = None"
  shows "own_properties obj = obj"
proof -
  have "filter (\<lambda>e. array_index (fst e) \<noteq> None) obj = []"
    using assms by (simp add: filter_empty_conv)
  moreover have "filter (\<lambda>e. array_index (fst e) = None) obj = obj"
    using assms by (simp add: filter_id_conv)
  ultimately show ?thesis by (simp add: own_properties_def)
qed

lemma fold_update_fresh:
  "distinct (map fst (acc @ ms)) \<Longrightarrow> fold (\<lambda>e obj. AList.update (fst e) (snd e) obj) ms acc = acc @ ms"
proof (induction ms arbitrary: acc)
  case Nil
  then show ?case by simp
next
  case (Cons x ms)
  have "fst x \<notin> fst ` set acc" using Cons.prems by auto
  then have u: "AList.update (fst x) (snd x) acc = acc @ [x]"
    using update_fresh[of "fst x" acc "snd x"] by simp
  have "distinct (map fst ((acc @ [x]) @ ms))" using Cons.prems by simp
  from Cons.IH[OF this] show ?case by (simp add: u)
qed

lemma JSON_parse_distinct: "distinct (map fst ms) \<Longrightarrow> JSON_parse ms = ms"
  using fold_update_fresh[of "[]" ms] by (simp add: JSON_parse_def)

lemma cache_object_wf: "cache_wf st \<Longrightarrow> cache_object st = stored_map st"
  by (cases st) (simp_all add: cache_wf_def cache_object_def stored_map_def JSON_parse_distinct)

lemma limit_cache_drop:
  assumes "distinct (map fst m)" and "\<forall>k\<in>set (map fst m). array_index k = None"
  shows "limit_cache m = drop (length m - 50) m"
proof -
  have "Object_keys m = map fst m" using assms(2) by (simp add: Object_keys_def own_properties_plain)
  then show ?thesis using assms(1) by (simp add: limit_cache_def Let_def fold_delete_take)
qed

lemma set_property_keys:
  "map fst (set_property m k v) = (if k \<in> set (map fst m) \<or> k = ''__proto__'' then map fst m else map fst m @ [k])"
proof (cases "k = ''__proto__'' \<and> map_of m k = None")
  case True
  then show ?thesis by (auto simp: set_property_def)
next
  case False
  have u: "set_property m k v = AList.update k v m"
    unfolding set_property_def using False by (rule if_not_P)
  have "k = ''__proto__'' \<Longrightarrow> k \<in> set (map fst m)"
  proof -
    assume "k = ''__proto__''"
    then have "map_of m k \<noteq> None" using False by simp
    then show ?thesis by (simp add: map_of_eq_None_iff)
  qed
  then show ?thesis unfolding u AList.update_keys by auto
qed

lemma set_property_plain: "k \<noteq> ''__proto__'' \<Longrightarrow> set_property m k v = AList.update k v m"
  by (simp add: set_property_def)

lemma set_property_distinct: "distinct (map fst m) \<Longrightarrow> distinct (map fst (set_property m k v))"
  by (simp add: set_property_def AList.distinct_update)

lemma set_property_no_index:
  assumes "\<forall>x\<in>set (map fst m). array_index x = None" and "array_index k = None"
  shows "\<forall>x\<in>set (map fst (set_property m k v)). array_index x = None"
  unfolding set_property_keys using assms by auto

lemma stored_map_save:
  assumes "cache_wf st" "br_window env" "\<not> br_quota_exceeded env" "array_index K = None"
  shows "stored_map (saveSuggestionsToCache env st K v)
           = drop (length (set_property (stored_map st) K v) - 50) (set_property (stored_map st) K v)"
proof -
  let ?u = "set_property (stored_map st) K v"
  have d: "distinct (map fst ?u)" using assms(1) by (simp add: cache_wf_def set_property_distinct)
  have n: "\<forall>x\<in>set (map fst ?u). array_index x = None"
    using assms(1,4) by (intro set_property_no_index) (simp_all add: cache_wf_def)
  have l: "limit_cache ?u = drop (length ?u - 50) ?u" using d n by (rule limit_cache_drop)
  have "\<forall>x\<in>set (map fst (drop (length ?u - 50) ?u)). array_index x = None"
    using n set_drop_subset[of "length ?u - 50" ?u] by auto
  then have s: "JSON_stringify (drop (length ?u - 50) ?u) = drop (length ?u - 50) ?u"
    unfolding JSON_stringify_def by (rule own_properties_plain)
  have "st \<noteq> Corrupt" using assms(1) by (simp add: cache_wf_def)
  then have "saveSuggestionsToCache env st K v = CacheJson (JSON_stringify (limit_cache ?u))"
    using assms(2,3) by (simp add: saveSuggestionsToCache_def Let_def cache_object_wf[OF assms(1)])
  then have "stored_map (saveSuggestionsToCache env st K v) = JSON_stringify (limit_cache ?u)"
    by (simp add: stored_map_def)
  then show ?thesis unfolding l s .
qed

lemma save_wf:
  assumes "cache_wf st" "br_window env" "\<not> br_quota_exceeded env" "array_index K = None"
  shows "cache_wf (saveSuggestionsToCache env st K v)"
proof -
  let ?u = "set_property (stored_map st) K v"
  have d: "distinct (map fst ?u)" using assms(1) by (simp add: cache_wf_def set_property_distinct)
  have n: "\<forall>x\<in>set (map fst ?u). array_index x = None"
    using assms(1,4) by (intro set_property_no_index) (simp_all add: cache_wf_def)
  have a: "distinct (map fst (drop (length ?u - 50) ?u))"
    using d by (simp add: drop_map[symmetric] distinct_drop)
  have b: "length (drop (length ?u - 50) ?u) \<le> 50" by simp
  have c: "\<forall>x\<in>set (map fst (drop (length ?u - 50) ?u)). array_index x = None"
    using n set_drop_subset[of "length ?u - 50" ?u] by auto
  have e: "saveSuggestionsToCache env st K v \<noteq> Corrupt"
    using assms by (simp add: saveSuggestionsToCache_def cache_wf_def Let_def)
  show ?thesis
    unfolding cache_wf_def stored_map_save[OF assms] using a b c e by blast
qed

lemma get_own:
  assumes "cache_wf st" "br_window env" "map_of (stored_map st) K = Some v"
  shows "getCachedSuggestions env st K = Some (Suggestions v)"
proof (cases st)
  case NoItem
  then show ?thesis using assms(3) by (simp add: stored_map_def)
next
  case Corrupt
  then show ?thesis using assms(1) by (simp add: cache_wf_def)
next
  case (CacheJson ms)
  then have "JSON_parse ms = ms" using assms(1) by (simp add: cache_wf_def stored_map_def JSON_parse_distinct)
  then show ?thesis using assms(2,3) CacheJson
    by (simp add: getCachedSuggestions_def get_property_def stored_map_def)
qed

lemma get_None_iff:
  assumes "cache_wf st" "br_window env" "K \<notin> set Object_prototype"
  shows "getCachedSuggestions env st K = None \<longleftrightarrow> K \<notin> fst ` set (stored_map st)"
proof (cases st)
  case NoItem
  then show ?thesis using assms(2) by (simp add: getCachedSuggestions_def stored_map_def)
next
  case Corrupt
  then show ?thesis using assms(1) by (simp add: cache_wf_def)
next
  case (CacheJson ms)
  then have p: "JSON_parse ms = ms" using assms(1) by (simp add: cache_wf_def stored_map_def JSON_parse_distinct)
  have m: "map_of ms K = None \<longleftrightarrow> K \<notin> fst ` set ms" by (rule map_of_eq_None_iff)
  show ?thesis
  proof (cases "map_of ms K")
    case None
    then show ?thesis using assms(2,3) CacheJson p m
      by (simp add: getCachedSuggestions_def get_property_def stored_map_def)
  next
    case (Some a)
    then show ?thesis using assms(2) CacheJson p m
      by (simp add: getCachedSuggestions_def get_property_def stored_map_def)
  qed
qed

lemma round_trip_map:
  assumes "distinct (map fst m)" "length m \<le> 50"
  shows "map_of (drop (length (AList.update K v m) - 50) (AList.update K v m)) K = Some v"
proof (cases "K \<in> fst ` set m")
  case True
  then have "length (AList.update K v m) - 50 = 0"
    using assms(2) by (simp add: length_update_present)
  then show ?thesis by (simp add: AList.update_conv')
next
  case False
  then have u: "AList.update K v m = m @ [(K, v)]" by (rule update_fresh)
  have "K \<notin> fst ` set (drop (length m + 1 - 50) m)"
    using False set_drop_subset[of "length m + 1 - 50" m] by blast
  then have "map_of (drop (length m + 1 - 50) m) K = None"
    by (simp add: map_of_eq_None_iff)
  then show ?thesis using assms(2) by (simp add: u map_add_def)
qed

lemma save_then_get:
  assumes "cache_wf st" and "br_window env" and "\<not> br_quota_exceeded env"
    and "array_index K = None" and "K \<noteq> ''__proto__''"
  shows "getCachedSuggestions env (saveSuggestionsToCache env st K v) K = Some (Suggestions v)"
proof -
  have wf: "cache_wf (saveSuggestionsToCache env st K v)" using assms(1-4) by (rule save_wf)
  have "map_of (stored_map (saveSuggestionsToCache env st K v)) K = Some v"
    unfolding stored_map_save[OF assms(1-4)] set_property_plain[OF assms(5)]
    using assms(1) by (intro round_trip_map) (simp_all add: cache_wf_def)
  with wf assms(2) show ?thesis by (rule get_own)
qed

lemma cache_key_no_index: "array_index (cache_key threadId mid) = None"
proof -
  have "CHR ''_'' \<in> set (cache_key threadId mid)" by (simp add: cache_key_def)
  then have "\<not> list_all is_digit (cache_key threadId mid)"
    by (auto simp: list_all_iff is_digit_def)
  then show ?thesis by (simp add: array_index_def)
qed

lemma keys_save:
  assumes "cache_wf st" "br_window env" "\<not> br_quota_exceeded env" "array_index k = None"
  shows "map fst (stored_map (saveSuggestionsToCache env st k v)) = keys_after_save (map fst (stored_map st)) k"
proof -
  let ?u = "set_property (stored_map st) k v"
  have "map fst (stored_map (saveSuggestionsToCache env st k v)) = drop (length (map fst ?u) - 50) (map fst ?u)"
    by (simp add: stored_map_save[OF assms] drop_map)
  then show ?thesis unfolding set_property_keys keys_after_save_def Let_def .
qed

lemma keys_after_save_distinct: "distinct ks \<Longrightarrow> distinct (keys_after_save ks k)"
  by (simp add: keys_after_save_def Let_def)

lemma keys_after_save_length: "length (keys_after_save ks k) \<le> 50"
  by (simp add: keys_after_save_def Let_def)

lemma keys_after_save_subset: "set (keys_after_save ks k) \<subseteq> insert k (set ks)"
proof -
  let ?ks' = "if k \<in> set ks \<or> k = ''__proto__'' then ks else ks @ [k]"
  have "set (keys_after_save ks k) \<subseteq> set ?ks'"
    unfolding keys_after_save_def Let_def by (rule set_drop_subset)
  moreover have "set ?ks' \<subseteq> insert k (set ks)" by (cases "k \<in> set ks \<or> k = ''__proto__''") auto
  ultimately show ?thesis by (rule subset_trans)
qed

text \<open>One write leaves a key in place behind which fewer than 49 keys stand.\<close>

lemma key_survives:
  assumes "ks = pre @ K # post" "length ks \<le> 50" "length post < 49"
  shows "\<exists>pre' post'. keys_after_save ks k = pre' @ K # post' \<and> length post' \<le> Suc (length post)"
proof (cases "k \<in> set ks \<or> k = ''__proto__''")
  case True
  then have "keys_after_save ks k = ks" using assms(2) by (simp add: keys_after_save_def)
  then show ?thesis using assms(1) by (intro exI[of _ pre] exI[of _ post]) simp
next
  case False
  let ?d = "length (ks @ [k]) - 50"
  have d: "?d \<le> length pre" using assms by simp
  have "keys_after_save ks k = drop ?d (pre @ K # post @ [k])"
    using False assms(1) by (simp add: keys_after_save_def)
  also have "\<dots> = drop ?d pre @ K # (post @ [k])" using d by simp
  finally show ?thesis by (metis length_append_singleton order_refl)
qed

text \<open>
  One write under another key: the key is gone, or it is still in place, what stands
  before it stood there before, and what stood behind it still does, with the written
  key if that was not before it.
\<close>

lemma key_step:
  assumes "ks = pre @ K # post" "length ks \<le> 50" "k \<noteq> K" "distinct ks"
  shows "K \<notin> set (keys_after_save ks k)
       \<or> (\<exists>pre' post'. keys_after_save ks k = pre' @ K # post' \<and> set pre' \<subseteq> set pre
            \<and> set post \<subseteq> set post' \<and> (k \<notin> set pre \<and> k \<noteq> ''__proto__'' \<longrightarrow> k \<in> set post'))"
proof (cases "k \<in> set ks \<or> k = ''__proto__''")
  case True
  then have e: "keys_after_save ks k = pre @ K # post" using assms(1,2) by (simp add: keys_after_save_def)
  have "k \<notin> set pre \<and> k \<noteq> ''__proto__'' \<longrightarrow> k \<in> set post" using True assms(1,3) by auto
  then show ?thesis using e by blast
next
  case False
  let ?d = "length (ks @ [k]) - 50"
  have e: "keys_after_save ks k = drop ?d (pre @ K # post @ [k])"
    using False assms(1) by (simp add: keys_after_save_def)
  show ?thesis
  proof (cases "?d \<le> length pre")
    case True
    then have "keys_after_save ks k = drop ?d pre @ K # (post @ [k])" using e by simp
    moreover have "set (drop ?d pre) \<subseteq> set pre" by (rule set_drop_subset)
    ultimately show ?thesis by (intro disjI2 exI[of _ "drop ?d pre"] exI[of _ "post @ [k]"]) auto
  next
    case False
    have lk: "length ks = Suc (length pre + length post)" using assms(1) by simp
    have f: "\<not> Suc (Suc (length pre + length post)) - 50 \<le> length pre" using False lk by simp
    have g: "Suc (length pre + length post) \<le> 50" using assms(2) lk by simp
    have "length pre = 0" using f g by arith
    then have p1: "pre = []" by simp
    have "Suc (Suc (length pre + length post)) - 50 = 1" using f g by arith
    then have "?d = 1" using lk by simp
    note p = p1 this
    have "keys_after_save ks k = drop 1 (K # post @ [k])" using e p by simp
    then have "keys_after_save ks k = post @ [k]" by simp
    moreover have "K \<notin> set post" using assms(1,4) by auto
    ultimately show ?thesis using assms(3) by simp
  qed
qed

lemma key_absent_stays:
  "K \<notin> set ks \<Longrightarrow> K \<notin> set kw \<Longrightarrow> K \<notin> set (fold (\<lambda>k ks. keys_after_save ks k) kw ks)"
proof (induction kw arbitrary: ks)
  case Nil
  then show ?case by simp
next
  case (Cons k kw)
  have "K \<notin> set (keys_after_save ks k)"
    using keys_after_save_subset[of ks k] Cons.prems by auto
  then show ?case using Cons.IH[of "keys_after_save ks k"] Cons.prems(2) by simp
qed

lemma key_trail:
  "ks = pre @ K # post \<Longrightarrow> length ks \<le> 50 \<Longrightarrow> distinct ks \<Longrightarrow> K \<notin> set kw \<Longrightarrow> set pre \<subseteq> B
   \<Longrightarrow> K \<in> set (fold (\<lambda>k ks. keys_after_save ks k) kw ks)
   \<Longrightarrow> \<exists>pre' post'. fold (\<lambda>k ks. keys_after_save ks k) kw ks = pre' @ K # post'
         \<and> {k \<in> set kw. k \<notin> B \<and> k \<noteq> ''__proto__''} \<subseteq> set post' \<and> set post \<subseteq> set post'"
proof (induction kw arbitrary: ks pre post)
  case Nil
  then show ?case by auto
next
  case (Cons k kw)
  let ?ks1 = "keys_after_save ks k"
  have kK: "k \<noteq> K" and Kkw: "K \<notin> set kw" using Cons.prems(4) by auto
  have in1: "K \<in> set ?ks1"
  proof (rule ccontr)
    assume "K \<notin> set ?ks1"
    then have "K \<notin> set (fold (\<lambda>k ks. keys_after_save ks k) kw ?ks1)" using Kkw by (rule key_absent_stays)
    then show False using Cons.prems(6) by simp
  qed
  from key_step[OF Cons.prems(1,2) kK Cons.prems(3)] in1
  obtain pre1 post1 where s: "?ks1 = pre1 @ K # post1" "set pre1 \<subseteq> set pre" "set post \<subseteq> set post1"
      "k \<notin> set pre \<and> k \<noteq> ''__proto__'' \<longrightarrow> k \<in> set post1"
    by blast
  have l1: "length ?ks1 \<le> 50" by (rule keys_after_save_length)
  have d1: "distinct ?ks1" using Cons.prems(3) by (rule keys_after_save_distinct)
  have b1: "set pre1 \<subseteq> B" using s(2) Cons.prems(5) by blast
  have in2: "K \<in> set (fold (\<lambda>k ks. keys_after_save ks k) kw ?ks1)" using Cons.prems(6) by simp
  from Cons.IH[OF s(1) l1 d1 Kkw b1 in2]
  obtain pre' post' where r: "fold (\<lambda>k ks. keys_after_save ks k) kw ?ks1 = pre' @ K # post'"
      "{k \<in> set kw. k \<notin> B \<and> k \<noteq> ''__proto__''} \<subseteq> set post'" "set post1 \<subseteq> set post'"
    by blast
  have "k \<notin> B \<and> k \<noteq> ''__proto__'' \<longrightarrow> k \<in> set post'"
    using s(4) r(3) Cons.prems(5) by blast
  then have "{x \<in> set (k # kw). x \<notin> B \<and> x \<noteq> ''__proto__''} \<subseteq> set post'" using r(2) by auto
  moreover have "set post \<subseteq> set post'" using s(3) r(3) by blast
  ultimately show ?case using r(1) by auto
qed

text \<open>Fifty keys that the cache did not hold before push the key out.\<close>

lemma key_evicted:
  assumes "ks = pre @ [K]" "length ks \<le> 50" "distinct ks" "K \<notin> set kw" "set pre \<subseteq> B"
    and "50 \<le> length (remdups (filter (\<lambda>k. k \<notin> B \<and> k \<noteq> ''__proto__'') kw))"
  shows "K \<notin> set (fold (\<lambda>k ks. keys_after_save ks k) kw ks)"
proof
  let ?r = "fold (\<lambda>k ks. keys_after_save ks k) kw ks"
  assume i: "K \<in> set ?r"
  have ks: "ks = pre @ K # []" using assms(1) by simp
  from key_trail[OF ks assms(2,3,4,5) i]
  obtain pre' post' where r: "?r = pre' @ K # post'"
      "{k \<in> set kw. k \<notin> B \<and> k \<noteq> ''__proto__''} \<subseteq> set post'"
    by blast
  have l: "length ?r \<le> 50"
  proof (cases kw rule: rev_cases)
    case Nil
    then show ?thesis using assms(2) by simp
  next
    case (snoc kw' k)
    then show ?thesis by (simp add: keys_after_save_length)
  qed
  have "length post' \<le> 49" using l r(1) by simp
  moreover have "card (set post') \<le> length post'" by (rule card_length)
  moreover have "card {k \<in> set kw. k \<notin> B \<and> k \<noteq> ''__proto__''} \<le> card (set post')"
    using r(2) by (intro card_mono) simp_all
  moreover have "length (remdups (filter (\<lambda>k. k \<notin> B \<and> k \<noteq> ''__proto__'') kw))
      = card {k \<in> set kw. k \<notin> B \<and> k \<noteq> ''__proto__''}"
    by (simp add: length_remdups_card_conv)
  ultimately show False using assms(6) by simp
qed

lemma key_stays:
  assumes "br_window env" "\<not> br_quota_exceeded env"
  shows "cache_wf st \<Longrightarrow> map fst (stored_map st) = pre @ K # post \<Longrightarrow> length post + length ws \<le> 49
         \<Longrightarrow> \<forall>w\<in>set ws. array_index (fst w) = None
         \<Longrightarrow> K \<in> set (map fst (stored_map (save_all env ws st)))"
proof (induction ws arbitrary: st pre post)
  case Nil
  then show ?case by (simp add: save_all_def)
next
  case (Cons w ws)
  let ?st = "saveSuggestionsToCache env st (fst w) (snd w)"
  have ni: "array_index (fst w) = None" using Cons.prems(4) by simp
  have wf: "cache_wf ?st" using save_wf[OF Cons.prems(1) assms ni] .
  have len: "length (map fst (stored_map st)) \<le> 50" using Cons.prems(1) by (simp add: cache_wf_def)
  have "length post < 49" using Cons.prems(3) by simp
  from key_survives[OF Cons.prems(2) len this, of "fst w"]
  obtain pre' post' where p: "keys_after_save (map fst (stored_map st)) (fst w) = pre' @ K # post'"
      "length post' \<le> Suc (length post)" by blast
  have k: "map fst (stored_map ?st) = pre' @ K # post'"
    using keys_save[OF Cons.prems(1) assms ni] p(1) by simp
  have "length post' + length ws \<le> 49" using p(2) Cons.prems(3) by simp
  moreover have "\<forall>w\<in>set ws. array_index (fst w) = None" using Cons.prems(4) by simp
  ultimately show ?case using Cons.IH[OF wf k] by (simp add: save_all_def)
qed

lemma save_all_wf:
  assumes "br_window env" "\<not> br_quota_exceeded env"
  shows "cache_wf st \<Longrightarrow> \<forall>w\<in>set ws. array_index (fst w) = None \<Longrightarrow> cache_wf (save_all env ws st)"
proof (induction ws arbitrary: st)
  case Nil
  then show ?case by (simp add: save_all_def)
next
  case (Cons w ws)
  have ni: "array_index (fst w) = None" using Cons.prems(2) by simp
  have "cache_wf (saveSuggestionsToCache env st (fst w) (snd w))"
    using Cons.prems(1) assms ni by (rule save_wf)
  moreover have "\<forall>w\<in>set ws. array_index (fst w) = None" using Cons.prems(2) by simp
  ultimately show ?case using Cons.IH by (simp add: save_all_def)
qed

lemma keys_save_all:
  assumes "br_window env" "\<not> br_quota_exceeded env"
  shows "cache_wf st \<Longrightarrow> \<forall>w\<in>set ws. array_index (fst w) = None \<Longrightarrow>
     map fst (stored_map (save_all env ws st))
       = fold (\<lambda>k ks. keys_after_save ks k) (map fst ws) (map fst (stored_map st))"
proof (induction ws arbitrary: st)
  case Nil
  then show ?case by (simp add: save_all_def)
next
  case (Cons w ws)
  have ni: "array_index (fst w) = None" using Cons.prems(2) by simp
  have wf: "cache_wf (saveSuggestionsToCache env st (fst w) (snd w))"
    using Cons.prems(1) assms ni by (rule save_wf)
  have k: "map fst (stored_map (saveSuggestionsToCache env st (fst w) (snd w)))
        = keys_after_save (map fst (stored_map st)) (fst w)"
    using Cons.prems(1) assms ni by (rule keys_save)
  have "\<forall>w\<in>set ws. array_index (fst w) = None" using Cons.prems(2) by simp
  from Cons.IH[OF wf this] show ?case by (simp add: save_all_def k)
qed

text \<open>
  After the write of a new key, later writes that never write it again and that
  cover fifty keys the cache did not hold before leave it out of the cache.
\<close>

lemma save_all_evicts:
  assumes "br_window env" "\<not> br_quota_exceeded env" "cache_wf st"
    and "array_index K = None" "K \<noteq> ''__proto__''" "K \<notin> fst ` set (stored_map st)"
    and "\<forall>w\<in>set ws. array_index (fst w) = None" "K \<notin> fst ` set ws"
    and "50 \<le> length (newer_keys (map fst (stored_map st)) ws)"
  shows "K \<notin> fst ` set (stored_map (save_all env ws (saveSuggestionsToCache env st K v)))"
proof -
  let ?old = "map fst (stored_map st)"
  let ?st1 = "saveSuggestionsToCache env st K v"
  let ?d = "length (?old @ [K]) - 50"
  have wf1: "cache_wf ?st1" using assms(3,1,2,4) by (rule save_wf)
  have "map fst (stored_map ?st1) = keys_after_save ?old K" using assms(3,1,2,4) by (rule keys_save)
  also have "\<dots> = drop ?d (?old @ [K])" using assms(5,6) by (simp add: keys_after_save_def)
  also have "\<dots> = drop ?d ?old @ [K]" using assms(3) by (simp add: cache_wf_def)
  finally have k1: "map fst (stored_map ?st1) = drop ?d ?old @ [K]" .
  have l1: "length (map fst (stored_map ?st1)) \<le> 50" using wf1 by (simp add: cache_wf_def)
  have d1: "distinct (map fst (stored_map ?st1))" using wf1 by (simp add: cache_wf_def)
  have b: "set (drop ?d ?old) \<subseteq> set ?old" by (rule set_drop_subset)
  have kw: "K \<notin> set (map fst ws)" using assms(8) by simp
  have n: "50 \<le> length (remdups (filter (\<lambda>k. k \<notin> set ?old \<and> k \<noteq> ''__proto__'') (map fst ws)))"
    using assms(9) by (simp add: newer_keys_def)
  have "K \<notin> set (fold (\<lambda>k ks. keys_after_save ks k) (map fst ws) (map fst (stored_map ?st1)))"
    using k1 l1 d1 kw b n by (rule key_evicted)
  then show ?thesis
    unfolding keys_save_all[OF assms(1,2) wf1 assms(7), symmetric] by simp
qed

lemma save_all_snoc: "save_all env (ws @ [w]) st = saveSuggestionsToCache env (save_all env ws st) (fst w) (snd w)"
  by (simp add: save_all_def)

lemma drop_snoc_limit:
  "drop (length (drop (length ws - 50) ws @ [w]) - 50) (drop (length ws - 50) ws @ [w])
     = drop (length (ws @ [w]) - 50) (ws @ [w])"
proof (cases "length ws < 50")
  case True
  then show ?thesis by simp
next
  case False
  then have l: "length (drop (length ws - 50) ws) = 50" by simp
  have a: "drop (length (drop (length ws - 50) ws @ [w]) - 50) (drop (length ws - 50) ws @ [w])
             = drop 1 (drop (length ws - 50) ws) @ [w]"
    using l by simp
  have "Suc (length ws - 50) = length ws - 49" using False by arith
  then have "drop 1 (drop (length ws - 50) ws) = drop (length ws - 49) ws"
    by simp
  moreover have "drop (length (ws @ [w]) - 50) (ws @ [w]) = drop (length ws - 49) ws @ [w]"
    using False by simp
  ultimately show ?thesis using a by simp
qed

text \<open>Writes under new keys, from the missing item: the cache is the last fifty of them.\<close>

lemma save_all_last_fifty:
  assumes "br_window env" "\<not> br_quota_exceeded env"
  shows "distinct (map fst ws) \<Longrightarrow> \<forall>w\<in>set ws. array_index (fst w) = None \<and> fst w \<noteq> ''__proto__''
         \<Longrightarrow> stored_map (save_all env ws NoItem) = drop (length ws - 50) ws"
proof (induction ws rule: rev_induct)
  case Nil
  then show ?case by (simp add: save_all_def stored_map_def)
next
  case (snoc w ws)
  let ?st = "save_all env ws NoItem"
  have d: "distinct (map fst ws)" and f: "fst w \<notin> fst ` set ws" using snoc.prems(1) by auto
  have n: "\<forall>w\<in>set ws. array_index (fst w) = None \<and> fst w \<noteq> ''__proto__''"
    and nw: "array_index (fst w) = None" and pw: "fst w \<noteq> ''__proto__''"
    using snoc.prems(2) by auto
  have n': "\<forall>w\<in>set ws. array_index (fst w) = None" using n by simp
  have ih: "stored_map ?st = drop (length ws - 50) ws" using snoc.IH[OF d n] .
  have wf0: "cache_wf NoItem" by (simp add: cache_wf_def stored_map_def)
  have wf: "cache_wf ?st" using assms wf0 n' by (rule save_all_wf)
  have "fst w \<notin> fst ` set (drop (length ws - 50) ws)"
    using f set_drop_subset[of "length ws - 50" ws] by blast
  then have u: "AList.update (fst w) (snd w) (drop (length ws - 50) ws) = drop (length ws - 50) ws @ [w]"
    using update_fresh[of "fst w" "drop (length ws - 50) ws" "snd w"] by simp
  have "stored_map (saveSuggestionsToCache env ?st (fst w) (snd w))
          = drop (length (drop (length ws - 50) ws @ [w]) - 50) (drop (length ws - 50) ws @ [w])"
    unfolding stored_map_save[OF wf assms nw] set_property_plain[OF pw] ih u ..
  then show ?case unfolding save_all_snoc drop_snoc_limit .
qed

text \<open>
  Claim C8, as amended. In a browser whose storage takes the write, on a cache these
  functions have written (\<open>cache_wf\<close>: the missing item is one, and every such write
  keeps it) and for a key that is no array index and is not \<open>__proto__\<close>: reading key
  \<open>K\<close> after writing \<open>v\<close> under \<open>K\<close> gives \<open>v\<close>; after the write the cache holds at
  most 50 entries; and what the write removes is the front of the order of insertion,
  the oldest-inserted keys: the new entries are the updated entries without their first
  \<open>length - 50\<close>, and after any writes under keys of their own, from the missing item
  on, the cache is the last 50 of them. No key the hook builds is an array index.
\<close>

theorem cache_round_trip:
  assumes "cache_wf st" and "br_window env" and "\<not> br_quota_exceeded env"
    and "array_index K = None" and "K \<noteq> ''__proto__''"
  shows "getCachedSuggestions env (saveSuggestionsToCache env st K v) K = Some (Suggestions v)
       \<and> length (stored_map (saveSuggestionsToCache env st K v)) \<le> 50
       \<and> stored_map (saveSuggestionsToCache env st K v)
           = drop (length (AList.update K v (stored_map st)) - 50) (AList.update K v (stored_map st))
       \<and> cache_wf (saveSuggestionsToCache env st K v)
       \<and> cache_wf NoItem
       \<and> (\<forall>ws. distinct (map fst ws) \<and> (\<forall>w\<in>set ws. array_index (fst w) = None \<and> fst w \<noteq> ''__proto__'')
             \<longrightarrow> stored_map (save_all env ws NoItem) = drop (length ws - 50) ws)
       \<and> (\<forall>threadId mid. array_index (cache_key threadId mid) = None)"
proof -
  have a: "getCachedSuggestions env (saveSuggestionsToCache env st K v) K = Some (Suggestions v)"
    using assms by (rule save_then_get)
  have s: "stored_map (saveSuggestionsToCache env st K v)
           = drop (length (AList.update K v (stored_map st)) - 50) (AList.update K v (stored_map st))"
    using stored_map_save[OF assms(1-4), of v] unfolding set_property_plain[OF assms(5)] .
  have b: "length (stored_map (saveSuggestionsToCache env st K v)) \<le> 50"
    unfolding s by simp
  have c: "cache_wf (saveSuggestionsToCache env st K v)" using assms(1-4) by (rule save_wf)
  have d: "cache_wf NoItem" by (simp add: cache_wf_def stored_map_def)
  have e: "\<forall>threadId mid. array_index (cache_key threadId mid) = None"
    by (intro allI) (rule cache_key_no_index)
  have f: "\<forall>ws. distinct (map fst ws) \<and> (\<forall>w\<in>set ws. array_index (fst w) = None \<and> fst w \<noteq> ''__proto__'')
             \<longrightarrow> stored_map (save_all env ws NoItem) = drop (length ws - 50) ws"
  proof (intro allI impI)
    fix ws :: "(string \<times> suggestion list) list"
    assume "distinct (map fst ws) \<and> (\<forall>w\<in>set ws. array_index (fst w) = None \<and> fst w \<noteq> ''__proto__'')"
    then have "distinct (map fst ws)" "\<forall>w\<in>set ws. array_index (fst w) = None \<and> fst w \<noteq> ''__proto__''"
      by simp_all
    with assms(2,3) show "stored_map (save_all env ws NoItem) = drop (length ws - 50) ws"
      by (rule save_all_last_fifty)
  qed
  show ?thesis
    by (insert a b s c d f e, intro conjI; assumption)
qed

text \<open>
  A write under a new key into a cache of 50 entries, and the 51 writes from the missing
  item on: the oldest entry goes.
\<close>

theorem cache_round_trip_witness:
  "cache_wf full_store \<and> br_window browser_ok \<and> \<not> br_quota_exceeded browser_ok
   \<and> array_index ''new_m3'' = None \<and> ''new_m3'' \<noteq> ''__proto__''
   \<and> length (stored_map full_store) = 50
   \<and> getCachedSuggestions browser_ok
        (saveSuggestionsToCache browser_ok full_store ''new_m3'' (take 2 DEFAULT_SUGGESTIONS)) ''new_m3''
       = Some (Suggestions (take 2 DEFAULT_SUGGESTIONS))
   \<and> stored_map (saveSuggestionsToCache browser_ok full_store ''new_m3'' (take 2 DEFAULT_SUGGESTIONS))
       = tl fifty_writes @ [(''new_m3'', take 2 DEFAULT_SUGGESTIONS)]
   \<and> distinct (map fst (fifty_writes @ [(''new_m3'', take 2 DEFAULT_SUGGESTIONS)]))
   \<and> stored_map (save_all browser_ok (fifty_writes @ [(''new_m3'', take 2 DEFAULT_SUGGESTIONS)]) NoItem)
       = tl fifty_writes @ [(''new_m3'', take 2 DEFAULT_SUGGESTIONS)]"
proof -
  have w: "cache_wf full_store" by code_simp
  have e: "br_window browser_ok" "\<not> br_quota_exceeded browser_ok" by (simp_all add: browser_ok_def)
  have k: "array_index ''new_m3'' = None" by code_simp
  have p: "''new_m3'' \<noteq> ''__proto__''" by simp
  have m: "stored_map full_store = fifty_writes" by (simp add: full_store_def stored_map_def)
  have l: "length fifty_writes = 50" by (simp add: fifty_writes_def)
  have n: "''new_m3'' \<notin> fst ` set fifty_writes" by code_simp
  have u: "AList.update ''new_m3'' (take 2 DEFAULT_SUGGESTIONS) fifty_writes
             = fifty_writes @ [(''new_m3'', take 2 DEFAULT_SUGGESTIONS)]"
    using n by (rule update_fresh)
  have ne: "fifty_writes \<noteq> []" using l by auto
  have d: "drop (length (fifty_writes @ [(''new_m3'', take 2 DEFAULT_SUGGESTIONS)]) - 50)
              (fifty_writes @ [(''new_m3'', take 2 DEFAULT_SUGGESTIONS)])
           = tl fifty_writes @ [(''new_m3'', take 2 DEFAULT_SUGGESTIONS)]"
    using l ne by (simp add: drop_Suc)
  have l': "length (stored_map full_store) = 50" unfolding m by (rule l)
  from cache_round_trip[OF w e k p, of "take 2 DEFAULT_SUGGESTIONS"]
  have r: "getCachedSuggestions browser_ok
        (saveSuggestionsToCache browser_ok full_store ''new_m3'' (take 2 DEFAULT_SUGGESTIONS)) ''new_m3''
       = Some (Suggestions (take 2 DEFAULT_SUGGESTIONS))"
      "stored_map (saveSuggestionsToCache browser_ok full_store ''new_m3'' (take 2 DEFAULT_SUGGESTIONS))
       = tl fifty_writes @ [(''new_m3'', take 2 DEFAULT_SUGGESTIONS)]"
    unfolding m u d by blast+
  have di: "distinct (map fst (fifty_writes @ [(''new_m3'', take 2 DEFAULT_SUGGESTIONS)]))" by code_simp
  have pl: "\<forall>w\<in>set (fifty_writes @ [(''new_m3'', take 2 DEFAULT_SUGGESTIONS)]).
              array_index (fst w) = None \<and> fst w \<noteq> ''__proto__''"
    by code_simp
  from cache_round_trip[OF w e k p, of "take 2 DEFAULT_SUGGESTIONS"] di pl
  have "stored_map (save_all browser_ok (fifty_writes @ [(''new_m3'', take 2 DEFAULT_SUGGESTIONS)]) NoItem)
       = drop (length (fifty_writes @ [(''new_m3'', take 2 DEFAULT_SUGGESTIONS)]) - 50)
           (fifty_writes @ [(''new_m3'', take 2 DEFAULT_SUGGESTIONS)])"
    by blast
  then have h: "stored_map (save_all browser_ok (fifty_writes @ [(''new_m3'', take 2 DEFAULT_SUGGESTIONS)]) NoItem)
       = tl fifty_writes @ [(''new_m3'', take 2 DEFAULT_SUGGESTIONS)]"
    unfolding d .
  show ?thesis
    by (insert w e k p l' r di h, intro conjI; assumption)
qed

text \<open>
  Against C8 as stated: a write under \<open>__proto__\<close>, the key of thread \<open>_\<close> and message
  \<open>proto__\<close>, stores nothing, and the read that follows gives what every object
  inherits under that name; in a browser whose storage is full, and on an item that
  does not decode, the write stores nothing and the read finds nothing; and on a cache
  of 50 entries a write under the array index \<open>7\<close> removes the key just written, which
  then reads as absent.
\<close>

theorem cache_round_trip_counterexample:
  "cache_key (Some ''_'') (Some ''proto__'') = ''__proto__''
   \<and> saveSuggestionsToCache browser_ok NoItem ''__proto__'' (take 2 DEFAULT_SUGGESTIONS) = CacheJson []
   \<and> getCachedSuggestions browser_ok
        (saveSuggestionsToCache browser_ok NoItem ''__proto__'' (take 2 DEFAULT_SUGGESTIONS)) ''__proto__''
       = Some (Inherited ''__proto__'')
   \<and> getCachedSuggestions browser_full
        (saveSuggestionsToCache browser_full NoItem ''new_m3'' (take 2 DEFAULT_SUGGESTIONS)) ''new_m3''
       = None
   \<and> getCachedSuggestions browser_ok
        (saveSuggestionsToCache browser_ok Corrupt ''new_m3'' (take 2 DEFAULT_SUGGESTIONS)) ''new_m3''
       = None
   \<and> saveSuggestionsToCache browser_ok full_store ''7'' (take 2 DEFAULT_SUGGESTIONS) = full_store
   \<and> getCachedSuggestions browser_ok
        (saveSuggestionsToCache browser_ok full_store ''7'' (take 2 DEFAULT_SUGGESTIONS)) ''7''
       = None"
proof -
  have a: "cache_key (Some ''_'') (Some ''proto__'') = ''__proto__''"
    by (simp add: cache_key_def str_or_default_def)
  have b: "saveSuggestionsToCache browser_ok NoItem ''__proto__'' (take 2 DEFAULT_SUGGESTIONS) = CacheJson []"
    by (simp add: saveSuggestionsToCache_def browser_ok_def cache_object_def set_property_def
        limit_cache_def Object_keys_def own_properties_def JSON_stringify_def)
  have c: "getCachedSuggestions browser_ok (CacheJson []) ''__proto__'' = Some (Inherited ''__proto__'')"
    by (simp add: getCachedSuggestions_def browser_ok_def JSON_parse_def get_property_def Object_prototype_def)
  have d: "getCachedSuggestions browser_full
        (saveSuggestionsToCache browser_full NoItem ''new_m3'' (take 2 DEFAULT_SUGGESTIONS)) ''new_m3'' = None"
    by (simp add: saveSuggestionsToCache_def browser_full_def getCachedSuggestions_def Let_def)
  have d': "getCachedSuggestions browser_ok
        (saveSuggestionsToCache browser_ok Corrupt ''new_m3'' (take 2 DEFAULT_SUGGESTIONS)) ''new_m3'' = None"
    by (simp add: saveSuggestionsToCache_def browser_ok_def getCachedSuggestions_def)
  have f: "saveSuggestionsToCache browser_ok full_store ''7'' (take 2 DEFAULT_SUGGESTIONS) = full_store"
    by code_simp
  have g: "getCachedSuggestions browser_ok full_store ''7'' = None" by code_simp
  show ?thesis unfolding b f
    by (insert a c d d' g, intro conjI; (assumption | rule refl))
qed










lemma no_config: "generateSuggestionsWithLLM jp None net ctx = Inr DEFAULT_SUGGESTIONS"
  by (simp add: generateSuggestionsWithLLM_def select_api_key_def)





lemma getLast_nonempty: "getLastAIMessageContext msgs = Some lastAI \<Longrightarrow> msgs \<noteq> []"
  by (auto simp: getLastAIMessageContext_def)

lemma load_miss:
  assumes "getLastAIMessageContext msgs = Some lastAI"
    and "getCachedSuggestions env (hs_storage st) (cache_key threadId (fst lastAI)) = None"
    and "generateSuggestionsWithLLM jp cfg net (fmt msgs) = Inr r"
  shows "loadSuggestions jp env cfg net fmt threadId msgs st =
           st\<lparr>hs_storage := saveSuggestionsToCache env (hs_storage st) (cache_key threadId (fst lastAI)) r,
              hs_suggestions := Suggestions r, hs_isRefreshing := False\<rparr>"
  using assms getLast_nonempty[OF assms(1)] by (simp add: loadSuggestions_def Let_def)

lemma load_hit:
  assumes "getLastAIMessageContext msgs = Some lastAI"
    and "getCachedSuggestions env (hs_storage st) (cache_key threadId (fst lastAI)) = Some c"
  shows "loadSuggestions jp env cfg net fmt threadId msgs st = st\<lparr>hs_suggestions := c\<rparr>"
  using assms getLast_nonempty[OF assms(1)] by (simp add: loadSuggestions_def Let_def)

text \<open>
  Claim C10, as amended. When a load misses the cache, under a key that is no name
  every object inherits, and generation gives the default set, the default set is what
  the hook shows and what is stored under the miss key (in a browser whose storage
  takes the write); loading again for the same key is a cache hit that calls nothing,
  whatever the configuration and the network; the key stays a hit through any 49 or
  fewer later writes; and it is a miss again after later writes that do not write it
  again and that cover 50 keys the cache did not hold before. The later writes are
  under keys that are no array indices, as every key the hook builds.
\<close>

theorem failed_generation_is_cached:
  assumes "br_window env" and "\<not> br_quota_exceeded env" and "cache_wf (hs_storage st)"
    and "getLastAIMessageContext msgs = Some lastAI"
    and "cache_key threadId (fst lastAI) \<notin> set Object_prototype"
    and "getCachedSuggestions env (hs_storage st) (cache_key threadId (fst lastAI)) = None"
    and "generateSuggestionsWithLLM jp cfg net (fmt msgs) = Inr DEFAULT_SUGGESTIONS"
  shows "hs_suggestions (loadSuggestions jp env cfg net fmt threadId msgs st) = Suggestions DEFAULT_SUGGESTIONS
       \<and> hs_storage (loadSuggestions jp env cfg net fmt threadId msgs st)
           = saveSuggestionsToCache env (hs_storage st) (cache_key threadId (fst lastAI)) DEFAULT_SUGGESTIONS
       \<and> getCachedSuggestions env (hs_storage (loadSuggestions jp env cfg net fmt threadId msgs st))
             (cache_key threadId (fst lastAI)) = Some (Suggestions DEFAULT_SUGGESTIONS)
       \<and> (\<forall>cfg' net'. loadSuggestions jp env cfg' net' fmt threadId msgs
               (loadSuggestions jp env cfg net fmt threadId msgs st)
             = loadSuggestions jp env cfg net fmt threadId msgs st)
       \<and> (\<forall>ws. length ws < 50 \<and> (\<forall>w\<in>set ws. array_index (fst w) = None) \<longrightarrow>
             getCachedSuggestions env
               (save_all env ws (hs_storage (loadSuggestions jp env cfg net fmt threadId msgs st)))
               (cache_key threadId (fst lastAI)) \<noteq> None)
       \<and> (\<forall>ws. (\<forall>w\<in>set ws. array_index (fst w) = None)
               \<and> cache_key threadId (fst lastAI) \<notin> fst ` set ws
               \<and> 50 \<le> length (newer_keys (map fst (stored_map (hs_storage st))) ws) \<longrightarrow>
             getCachedSuggestions env
               (save_all env ws (hs_storage (loadSuggestions jp env cfg net fmt threadId msgs st)))
               (cache_key threadId (fst lastAI)) = None)"
proof -
  let ?K = "cache_key threadId (fst lastAI)"
  let ?st' = "loadSuggestions jp env cfg net fmt threadId msgs st"
  let ?m = "stored_map (hs_storage st)"
  have ni: "array_index ?K = None" by (rule cache_key_no_index)
  have np: "?K \<noteq> ''__proto__''" using assms(5) by (auto simp: Object_prototype_def)
  have miss: "?K \<notin> fst ` set ?m"
    using get_None_iff[OF assms(3,1,5)] assms(6) by simp
  have l: "?st' = st\<lparr>hs_storage := saveSuggestionsToCache env (hs_storage st) ?K DEFAULT_SUGGESTIONS,
              hs_suggestions := Suggestions DEFAULT_SUGGESTIONS, hs_isRefreshing := False\<rparr>"
    using assms(4,6,7) by (rule load_miss)
  have a: "hs_suggestions ?st' = Suggestions DEFAULT_SUGGESTIONS" by (simp add: l)
  have b: "hs_storage ?st' = saveSuggestionsToCache env (hs_storage st) ?K DEFAULT_SUGGESTIONS"
    by (simp add: l)
  have rt: "getCachedSuggestions env (saveSuggestionsToCache env (hs_storage st) ?K DEFAULT_SUGGESTIONS) ?K
          = Some (Suggestions DEFAULT_SUGGESTIONS)"
    using assms(3,1,2) ni np by (rule save_then_get)
  have c: "getCachedSuggestions env (hs_storage ?st') ?K = Some (Suggestions DEFAULT_SUGGESTIONS)"
    unfolding b by (rule rt)
  have d: "\<forall>cfg' net'. loadSuggestions jp env cfg' net' fmt threadId msgs ?st' = ?st'"
  proof (intro allI)
    fix cfg' net'
    have "loadSuggestions jp env cfg' net' fmt threadId msgs ?st'
            = ?st'\<lparr>hs_suggestions := Suggestions DEFAULT_SUGGESTIONS\<rparr>"
      using assms(4) c by (rule load_hit)
    also have "\<dots> = ?st'" using a by simp
    finally show "loadSuggestions jp env cfg' net' fmt threadId msgs ?st' = ?st'" .
  qed
  have wf': "cache_wf (hs_storage ?st')" unfolding b by (rule save_wf[OF assms(3,1,2) ni])
  have e: "\<forall>ws. length ws < 50 \<and> (\<forall>w\<in>set ws. array_index (fst w) = None) \<longrightarrow>
             getCachedSuggestions env (save_all env ws (hs_storage ?st')) ?K \<noteq> None"
  proof (intro allI impI)
    fix ws :: "(string \<times> suggestion list) list"
    assume h: "length ws < 50 \<and> (\<forall>w\<in>set ws. array_index (fst w) = None)"
    then have ws: "length ws < 50" and wn: "\<forall>w\<in>set ws. array_index (fst w) = None" by simp_all
    have "map fst (stored_map (hs_storage ?st')) = keys_after_save (map fst ?m) ?K"
      unfolding b by (rule keys_save[OF assms(3,1,2) ni])
    also have "\<dots> = drop (length (map fst ?m @ [?K]) - 50) (map fst ?m @ [?K])"
      using miss np by (simp add: keys_after_save_def)
    also have "\<dots> = drop (length (map fst ?m @ [?K]) - 50) (map fst ?m) @ ?K # []"
      using assms(3) by (simp add: cache_wf_def)
    finally have k: "map fst (stored_map (hs_storage ?st'))
        = drop (length (map fst ?m @ [?K]) - 50) (map fst ?m) @ ?K # []" .
    have "length ([] :: string list) + length ws \<le> 49" using ws by simp
    from key_stays[OF assms(1,2) wf' k this wn]
    have "?K \<in> fst ` set (stored_map (save_all env ws (hs_storage ?st')))" by simp
    moreover have "cache_wf (save_all env ws (hs_storage ?st'))"
      using assms(1,2) wf' wn by (rule save_all_wf)
    ultimately show "getCachedSuggestions env (save_all env ws (hs_storage ?st')) ?K \<noteq> None"
      using get_None_iff[OF _ assms(1,5)] by blast
  qed
  have f: "\<forall>ws. (\<forall>w\<in>set ws. array_index (fst w) = None) \<and> ?K \<notin> fst ` set ws
               \<and> 50 \<le> length (newer_keys (map fst ?m) ws) \<longrightarrow>
             getCachedSuggestions env (save_all env ws (hs_storage ?st')) ?K = None"
  proof (intro allI impI)
    fix ws :: "(string \<times> suggestion list) list"
    assume h: "(\<forall>w\<in>set ws. array_index (fst w) = None) \<and> ?K \<notin> fst ` set ws
               \<and> 50 \<le> length (newer_keys (map fst ?m) ws)"
    then have wn: "\<forall>w\<in>set ws. array_index (fst w) = None" and kw: "?K \<notin> fst ` set ws"
      and n: "50 \<le> length (newer_keys (map fst ?m) ws)" by simp_all
    have "?K \<notin> fst ` set (stored_map (save_all env ws (hs_storage ?st')))"
      unfolding b using assms(1,2,3) ni np miss wn kw n by (rule save_all_evicts)
    moreover have "cache_wf (save_all env ws (hs_storage ?st'))"
      using assms(1,2) wf' wn by (rule save_all_wf)
    ultimately show "getCachedSuggestions env (save_all env ws (hs_storage ?st')) ?K = None"
      using get_None_iff[OF _ assms(1,5)] by blast
  qed
  show ?thesis
    by (insert a b c d e f, intro conjI; assumption)
qed

text \<open>
  A failed generation on the list of Scenario A, from an empty store, followed by 49
  and by 50 writes under other keys.
\<close>

theorem failed_generation_is_cached_witness:
  "br_window browser_ok \<and> \<not> br_quota_exceeded browser_ok \<and> cache_wf (hs_storage empty_hook_state)
   \<and> getLastAIMessageContext scenario_A = Some (Some ''m3'', completed_1)
   \<and> cache_key None (Some ''m3'') = ''new_m3''
   \<and> ''new_m3'' \<notin> set Object_prototype
   \<and> getCachedSuggestions browser_ok (hs_storage empty_hook_state) ''new_m3'' = None
   \<and> generateSuggestionsWithLLM demo_parse None offline_network [] = Inr DEFAULT_SUGGESTIONS
   \<and> getCachedSuggestions browser_ok
        (hs_storage (loadSuggestions demo_parse browser_ok None offline_network (\<lambda>m. []) None scenario_A empty_hook_state))
        ''new_m3'' = Some (Suggestions DEFAULT_SUGGESTIONS)
   \<and> length (take 49 fifty_writes) = 49
   \<and> getCachedSuggestions browser_ok
        (save_all browser_ok (take 49 fifty_writes)
          (hs_storage (loadSuggestions demo_parse browser_ok None offline_network (\<lambda>m. []) None scenario_A empty_hook_state)))
        ''new_m3'' \<noteq> None
   \<and> length (newer_keys (map fst (stored_map (hs_storage empty_hook_state))) fifty_writes) = 50
   \<and> getCachedSuggestions browser_ok
        (save_all browser_ok fifty_writes
          (hs_storage (loadSuggestions demo_parse browser_ok None offline_network (\<lambda>m. []) None scenario_A empty_hook_state)))
        ''new_m3'' = None"
proof -
  let ?st' = "hs_storage (loadSuggestions demo_parse browser_ok None offline_network (\<lambda>m. []) None scenario_A empty_hook_state)"
  have e: "br_window browser_ok" "\<not> br_quota_exceeded browser_ok" by (simp_all add: browser_ok_def)
  have w: "cache_wf (hs_storage empty_hook_state)"
    by (simp add: empty_hook_state_def cache_wf_def stored_map_def)
  have g: "getLastAIMessageContext scenario_A = Some (Some ''m3'', completed_1)" by code_simp
  have k: "cache_key None (Some ''m3'') = ''new_m3''" by (simp add: cache_key_def str_or_default_def)
  have k': "cache_key None (fst (Some ''m3'', completed_1)) = ''new_m3''" using k by simp
  have o: "''new_m3'' \<notin> set Object_prototype" by (simp add: Object_prototype_def)
  have m: "getCachedSuggestions browser_ok (hs_storage empty_hook_state) ''new_m3'' = None"
    by (simp add: getCachedSuggestions_def empty_hook_state_def)
  have f: "generateSuggestionsWithLLM demo_parse None offline_network [] = Inr DEFAULT_SUGGESTIONS"
    by (simp add: generateSuggestionsWithLLM_def select_api_key_def)
  have l: "length (take 49 fifty_writes) = 49" by (simp add: fifty_writes_def)
  have l': "length (take 49 fifty_writes) < 50" unfolding l by simp
  have wn: "\<forall>w\<in>set fifty_writes. array_index (fst w) = None" by code_simp
  have wn': "\<forall>w\<in>set (take 49 fifty_writes). array_index (fst w) = None"
    using wn by (meson in_set_takeD)
  have kw: "''new_m3'' \<notin> fst ` set fifty_writes" by code_simp
  have n: "length (newer_keys (map fst (stored_map (hs_storage empty_hook_state))) fifty_writes) = 50"
    by code_simp
  note t = failed_generation_is_cached[of browser_ok empty_hook_state scenario_A "(Some ''m3'', completed_1)"
      None demo_parse None offline_network "\<lambda>m. []", unfolded k', OF e w g o m f]
  have r1: "getCachedSuggestions browser_ok ?st' ''new_m3'' = Some (Suggestions DEFAULT_SUGGESTIONS)"
    using t by blast
  have r2: "getCachedSuggestions browser_ok (save_all browser_ok (take 49 fifty_writes) ?st') ''new_m3'' \<noteq> None"
    using t l' wn' by blast
  have n': "50 \<le> length (newer_keys (map fst (stored_map (hs_storage empty_hook_state))) fifty_writes)"
    unfolding n by simp
  have r3: "getCachedSuggestions browser_ok (save_all browser_ok fifty_writes ?st') ''new_m3'' = None"
    using t wn kw n' by blast
  show ?thesis
    by (insert e w g k o m f r1 l r2 n r3, intro conjI; assumption)
qed

text \<open>Against C10 as stated: after 50 later writes under other keys, the key is a miss again.\<close>

theorem failed_generation_is_cached_counterexample:
  "getCachedSuggestions browser_ok
        (hs_storage (loadSuggestions demo_parse browser_ok None offline_network (\<lambda>m. []) None scenario_A empty_hook_state))
        ''new_m3'' = Some (Suggestions DEFAULT_SUGGESTIONS)
   \<and> length fifty_writes = 50
   \<and> getCachedSuggestions browser_ok
        (save_all browser_ok fifty_writes
          (hs_storage (loadSuggestions demo_parse browser_ok None offline_network (\<lambda>m. []) None scenario_A empty_hook_state)))
        ''new_m3'' = None"
proof -
  let ?st = "hs_storage (loadSuggestions demo_parse browser_ok None offline_network (\<lambda>m. []) None scenario_A empty_hook_state)"
  have e: "br_window browser_ok" "\<not> br_quota_exceeded browser_ok" by (simp_all add: browser_ok_def)
  have g: "getLastAIMessageContext scenario_A = Some (Some ''m3'', completed_1)" by code_simp
  have k: "cache_key None (Some ''m3'') = ''new_m3''"
    by (simp add: cache_key_def str_or_default_def)
  have m: "getCachedSuggestions browser_ok (hs_storage empty_hook_state) (cache_key None (fst (Some ''m3'', completed_1))) = None"
    by (simp add: getCachedSuggestions_def empty_hook_state_def)
  have f: "generateSuggestionsWithLLM demo_parse None offline_network ((\<lambda>m. []) scenario_A) = Inr DEFAULT_SUGGESTIONS"
    by (simp add: generateSuggestionsWithLLM_def select_api_key_def)
  have st: "?st = saveSuggestionsToCache browser_ok NoItem ''new_m3'' DEFAULT_SUGGESTIONS"
    using load_miss[of scenario_A "(Some ''m3'', completed_1)" browser_ok empty_hook_state None
        demo_parse None offline_network "\<lambda>m. []" DEFAULT_SUGGESTIONS, OF g m f]
    by (simp add: k empty_hook_state_def)
  have w: "cache_wf NoItem" by (simp add: cache_wf_def stored_map_def)
  have ni: "array_index ''new_m3'' = None" by code_simp
  have np: "''new_m3'' \<noteq> ''__proto__''" by simp
  have o: "''new_m3'' \<notin> set Object_prototype" by (simp add: Object_prototype_def)
  have a: "getCachedSuggestions browser_ok ?st ''new_m3'' = Some (Suggestions DEFAULT_SUGGESTIONS)"
    unfolding st using w e ni np by (rule save_then_get)
  have b: "length fifty_writes = 50" by (simp add: fifty_writes_def)
  have wn: "\<forall>w\<in>set fifty_writes. array_index (fst w) = None" by code_simp
  have kw: "''new_m3'' \<notin> fst ` set fifty_writes" by code_simp
  have old: "''new_m3'' \<notin> fst ` set (stored_map NoItem)" by (simp add: stored_map_def)
  have n: "50 \<le> length (newer_keys (map fst (stored_map NoItem)) fifty_writes)" by code_simp
  have wf1: "cache_wf (saveSuggestionsToCache browser_ok NoItem ''new_m3'' DEFAULT_SUGGESTIONS)"
    using w e ni by (rule save_wf)
  have "''new_m3'' \<notin> fst ` set (stored_map (save_all browser_ok fifty_writes ?st))"
    unfolding st using e w ni np old wn kw n by (rule save_all_evicts)
  moreover have "cache_wf (save_all browser_ok fifty_writes ?st)"
    unfolding st using e wf1 wn by (rule save_all_wf)
  ultimately have c: "getCachedSuggestions browser_ok (save_all browser_ok fifty_writes ?st) ''new_m3'' = None"
    using get_None_iff[OF _ e(1) o] by blast
  show ?thesis
    by (insert a b c, intro conjI; assumption)
qed

end
